theory Spec2Isabelle
  imports Main "HOL-Library.Word"
begin

unbundle bit_operations_syntax

section \<open>JavaScript values used by registry.ts\<close>

text \<open>
  A JavaScript string is a sequence of 16-bit code units (\<open>charCodeAt\<close> reads one), a
  \<open>Uint8Array\<close> is a sequence of bytes.  String literals of the source are written
  \<open>js ''...''\<close>.  A number is an integral value or \<open>NaN\<close> (fractions and infinities
  are outside the model), a bigint is an integer.  Exceptions thrown by the platform are
  values of \<open>exn\<close>; a function that can throw returns \<open>exn + 'a\<close>.
\<close>

type_synonym jschar = "16 word"
type_synonym jsstring = "jschar list"
type_synonym byte = "8 word"

datatype exn = TypeError | RangeError | SyntaxError

datatype number = Num int | NaN

definition js :: "string \<Rightarrow> jsstring" where
  "js s = map of_char s"

text \<open>\<open>Array.prototype.join\<close>.\<close>

fun join :: "jsstring \<Rightarrow> jsstring list \<Rightarrow> jsstring" where
  "join sep [] = []"
| "join sep [x] = x"
| "join sep (x # y # ys) = x @ sep @ join sep (y # ys)"

text \<open>\<open>String.prototype.padStart\<close> with a one-character filler.\<close>

definition padStart :: "nat \<Rightarrow> jschar \<Rightarrow> jsstring \<Rightarrow> jsstring" where
  "padStart n c s = replicate (n - length s) c @ s"

text \<open>\<open>toString(16)\<close> of a non-negative integer, and of any integer.\<close>

definition hexdigit :: "nat \<Rightarrow> jschar" where
  "hexdigit d = (if d < 10 then 48 + of_nat d else 87 + of_nat d)"

fun toString16 :: "nat \<Rightarrow> jsstring" where
  "toString16 n = (if n < 16 then [hexdigit n] else toString16 (n div 16) @ [hexdigit (n mod 16)])"

declare toString16.simps [simp del]

definition int_toString16 :: "int \<Rightarrow> jsstring" where
  "int_toString16 v = (if v < 0 then js ''-'' @ toString16 (nat (- v)) else toString16 (nat v))"

fun number_toString16 :: "number \<Rightarrow> jsstring" where
  "number_toString16 (Num v) = int_toString16 v"
| "number_toString16 NaN = js ''NaN''"

text \<open>
  The bytes of an unsigned integer, least significant first; \<open>le_bytes n v\<close> keeps
  \<open>v mod 256 ^ n\<close>.  \<open>u16_bytes\<close> is the byte view \<open>new Uint8Array(a.buffer)\<close> of a
  \<open>Uint16Array\<close> on a little-endian platform.
\<close>

fun le_bytes :: "nat \<Rightarrow> nat \<Rightarrow> byte list" where
  "le_bytes 0 v = []"
| "le_bytes (Suc k) v = of_nat (v mod 256) # le_bytes k (v div 256)"

definition u16_bytes :: "jschar list \<Rightarrow> byte list" where
  "u16_bytes a = concat (map (\<lambda>c. le_bytes 2 (unat c)) a)"

text \<open>
  \<open>DataView.prototype.setUint16/32/BigUint64\<close>: \<open>n\<close> bytes of \<open>v\<close> written at byte
  offset \<open>off\<close>; a write that does not fit throws a RangeError.
\<close>

definition uint_bytes :: "nat \<Rightarrow> nat \<Rightarrow> bool \<Rightarrow> byte list" where
  "uint_bytes n v littleEndian = (if littleEndian then le_bytes n v else rev (le_bytes n v))"

definition write_bytes :: "byte list \<Rightarrow> nat \<Rightarrow> byte list \<Rightarrow> byte list" where
  "write_bytes buf off bs = take off buf @ bs @ drop (off + length bs) buf"

definition dv_set :: "nat \<Rightarrow> byte list \<Rightarrow> nat \<Rightarrow> nat \<Rightarrow> bool \<Rightarrow> exn + byte list" where
  "dv_set n buf off v littleEndian =
     (if off + n \<le> length buf then Inr (write_bytes buf off (uint_bytes n v littleEndian))
      else Inl RangeError)"

text \<open>The conversions \<open>ToUint32\<close> of an integral number and \<open>BigInt.asUintN(64, _)\<close>.\<close>

fun ToUint32 :: "number \<Rightarrow> nat" where
  "ToUint32 (Num v) = nat (v mod 2 ^ 32)"
| "ToUint32 NaN = 0"

definition ToBigUint64 :: "int \<Rightarrow> nat" where
  "ToBigUint64 v = nat (v mod 2 ^ 64)"

section \<open>The value codec\<close>

subsection \<open>Helpers\<close>

definition bytes_to_hex :: "byte list \<Rightarrow> jsstring" where
  "bytes_to_hex value = join (js '','') (map (\<lambda>i. padStart 2 48 (toString16 (unat i))) value)"

text \<open>
  \<open>string_to_bytes(buffer, offset, value)\<close>: the loop writes the code unit \<open>i\<close> at byte
  \<open>offset + 2 * i\<close> of the buffer, then the terminator; the result is the buffer and the
  offset after the terminator.  \<open>new DataView(buffer, offset)\<close> throws when the offset is
  past the end of the buffer.
\<close>

fun string_to_bytes_loop :: "byte list \<Rightarrow> nat \<Rightarrow> jsstring \<Rightarrow> exn + byte list" where
  "string_to_bytes_loop buf off [] = Inr buf"
| "string_to_bytes_loop buf off (c # cs) =
     (case dv_set 2 buf off (unat c) True of
        Inl e \<Rightarrow> Inl e
      | Inr buf' \<Rightarrow> string_to_bytes_loop buf' (off + 2) cs)"

definition string_to_bytes :: "byte list \<Rightarrow> nat \<Rightarrow> jsstring \<Rightarrow> exn + byte list \<times> nat" where
  "string_to_bytes buffer offset value =
     (if length buffer < offset then Inl RangeError
      else case string_to_bytes_loop buffer offset value of
        Inl e \<Rightarrow> Inl e
      | Inr buf \<Rightarrow>
          (case dv_set 2 buf (offset + length value * 2) 0 True of
             Inl e \<Rightarrow> Inl e
           | Inr buf' \<Rightarrow> Inr (buf', offset + (length value + 1) * 2)))"

subsection \<open>The value classes and their raw encodings\<close>

datatype Data =
    NONE "byte list"
  | BINARY "byte list"
  | LINK "byte list"
  | RESOURCE_LIST "byte list"
  | FULL_RESOURCE_DESCRIPTOR "byte list"
  | RESOURCE_REQUIREMENTS_LIST "byte list"
  | SZ jsstring
  | EXPAND_SZ jsstring
  | DWORD number
  | DWORD_BIG_ENDIAN number
  | MULTI_SZ "jsstring list"
  | QWORD int

text \<open>
  Element writes of a \<open>Uint16Array\<close>: \<open>a[acc + j] = i.charCodeAt(j)\<close> for every \<open>j\<close>;
  a write past the end of a typed array is ignored, as \<open>list_update\<close> does.
\<close>

fun u16_write :: "jschar list \<Rightarrow> nat \<Rightarrow> jsstring \<Rightarrow> jschar list" where
  "u16_write a acc [] = a"
| "u16_write a acc (c # cs) = u16_write (a[acc := c]) (Suc acc) cs"

definition multi_raw_step :: "jschar list \<times> nat \<Rightarrow> jsstring \<Rightarrow> jschar list \<times> nat" where
  "multi_raw_step st i =
     (case st of (a, acc) \<Rightarrow> ((u16_write a acc i)[acc + length i := 0], acc + length i + 1))"

fun raw :: "Data \<Rightarrow> byte list" where
  "raw (NONE value) = value"
| "raw (BINARY value) = value"
| "raw (LINK value) = value"
| "raw (RESOURCE_LIST value) = value"
| "raw (FULL_RESOURCE_DESCRIPTOR value) = value"
| "raw (RESOURCE_REQUIREMENTS_LIST value) = value"
| "raw (SZ value) =
     u16_bytes ((u16_write (replicate (length value + 1) 0) 0 value)[length value := 0])"
| "raw (EXPAND_SZ value) =
     u16_bytes ((u16_write (replicate (length value + 1) 0) 0 value)[length value := 0])"
| "raw (DWORD value) = write_bytes (replicate 4 0) 0 (uint_bytes 4 (ToUint32 value) True)"
| "raw (DWORD_BIG_ENDIAN value) = write_bytes (replicate 4 0) 0 (uint_bytes 4 (ToUint32 value) False)"
| "raw (MULTI_SZ value) =
     (let len = foldl (\<lambda>acc i. acc + length i + 1) 0 value;
          a = replicate (len + 1) 0
      in u16_bytes (fst (foldl multi_raw_step (a, 0) value)))"
| "raw (QWORD value) = write_bytes (replicate 8 0) 0 (uint_bytes 8 (ToBigUint64 value) True)"

subsection \<open>data_to_regstring\<close>

definition quoted :: "jsstring \<Rightarrow> jsstring" where
  "quoted s = js ''\"'' @ s @ js ''\"''"

definition multi_strict_step :: "exn + byte list \<times> nat \<Rightarrow> jsstring \<Rightarrow> exn + byte list \<times> nat" where
  "multi_strict_step st i =
     (case st of Inl e \<Rightarrow> Inl e | Inr (bytes, acc) \<Rightarrow> string_to_bytes bytes acc i)"

fun data_to_regstring :: "Data \<Rightarrow> bool \<Rightarrow> exn + jsstring" where
  "data_to_regstring (NONE value) strict = Inr (js ''hex(0):'' @ bytes_to_hex value)"
| "data_to_regstring (LINK value) strict = Inr (js ''hex(6):'' @ bytes_to_hex value)"
| "data_to_regstring (RESOURCE_LIST value) strict = Inr (js ''hex(8):'' @ bytes_to_hex value)"
| "data_to_regstring (FULL_RESOURCE_DESCRIPTOR value) strict = Inr (js ''hex(9):'' @ bytes_to_hex value)"
| "data_to_regstring (RESOURCE_REQUIREMENTS_LIST value) strict = Inr (js ''hex(a):'' @ bytes_to_hex value)"
| "data_to_regstring (BINARY value) strict = Inr (js ''hex:'' @ bytes_to_hex value)"
| "data_to_regstring (EXPAND_SZ d) strict =
     (if strict then
        (case string_to_bytes (replicate ((length d + 1) * 2) 0) 0 d of
           Inl e \<Rightarrow> Inl e
         | Inr (bytes, _) \<Rightarrow> Inr (js ''hex(2):'' @ bytes_to_hex bytes))
      else Inr (quoted d))"
| "data_to_regstring (SZ value) strict = Inr (quoted value)"
| "data_to_regstring (DWORD_BIG_ENDIAN value) strict =
     (if strict then
        (case dv_set 4 (replicate 4 0) 0 (ToUint32 value) True of
           Inl e \<Rightarrow> Inl e
         | Inr bytes \<Rightarrow> Inr (js ''hex(5): '' @ bytes_to_hex bytes))
      else Inr (js ''dword:'' @ number_toString16 value))"
| "data_to_regstring (DWORD value) strict = Inr (js ''dword:'' @ number_toString16 value)"
| "data_to_regstring (QWORD value) strict =
     (if strict then
        (case dv_set 8 (replicate 8 0) 0 (ToBigUint64 value) True of
           Inl e \<Rightarrow> Inl e
         | Inr bytes \<Rightarrow> Inr (js ''hex(11):'' @ bytes_to_hex bytes))
      else Inr (js ''qword:'' @ int_toString16 value))"
| "data_to_regstring (MULTI_SZ d) strict =
     (if strict then
        (let len = foldl (\<lambda>acc i. acc + length i + 1) 1 d;
             bytes = replicate (len * 2) 0
         in case foldl multi_strict_step (Inr (bytes, 0)) d of
              Inl e \<Rightarrow> Inl e
            | Inr (bytes', end) \<Rightarrow>
                Inr (js ''hex(7):'' @ bytes_to_hex (bytes'[end := 0, end + 1 := 0])))
      else Inr (js ''['' @ join (js '','') (map quoted d) @ js '']''))"

section \<open>Regular expressions\<close>

text \<open>
  The regular expressions of the source are values of \<open>regex\<close>, matched as the
  JavaScript backtracking matcher does: \<open>matches r st\<close> lists, in the matcher's order
  of preference, the states in which a match of \<open>r\<close> started in state \<open>st\<close> can end.  A
  state is the index of the next character, the rest of the input and the captures so far.
  The star is greedy and gives up an iteration that consumes nothing.  A character class is
  a list of inclusive ranges.  \<open>r+\<close>, \<open>r?\<close> and \<open>r{n}\<close> are written with \<open>Plus\<close>,
  \<open>Opt\<close> and \<open>Rep\<close>.  None of the source's patterns has a capture group that an
  iteration of a star could leave unset, so captures are not reset between iterations.
\<close>

datatype regex =
    Chr jschar
  | Cls "(jschar \<times> jschar) list"
  | NCls "(jschar \<times> jschar) list"
  | Dot
  | Bol
  | Eol
  | Eps
  | Seq regex regex
  | Alt regex regex
  | Star regex
  | Group nat regex

type_synonym captures = "nat \<Rightarrow> jsstring option"
type_synonym mstate = "nat \<times> jsstring \<times> captures"

definition in_ranges :: "jschar \<Rightarrow> (jschar \<times> jschar) list \<Rightarrow> bool" where
  "in_ranges c rs = list_ex (\<lambda>r. fst r \<le> c \<and> c \<le> snd r) rs"

text \<open>The line terminators, which \<open>.\<close> does not match, and the characters of \<open>\s\<close>.\<close>

definition line_terminators :: "(jschar \<times> jschar) list" where
  "line_terminators = [(0x0A, 0x0A), (0x0D, 0x0D), (0x2028, 0x2029)]"

definition whitespace :: "(jschar \<times> jschar) list" where
  "whitespace = [(0x09, 0x0D), (0x20, 0x20), (0xA0, 0xA0), (0x1680, 0x1680), (0x2000, 0x200A),
     (0x2028, 0x2029), (0x202F, 0x202F), (0x205F, 0x205F), (0x3000, 0x3000), (0xFEFF, 0xFEFF)]"

function matches :: "regex \<Rightarrow> mstate \<Rightarrow> mstate list" where
  "matches (Chr c) (i, s, caps) =
     (case s of [] \<Rightarrow> [] | x # xs \<Rightarrow> if x = c then [(Suc i, xs, caps)] else [])"
| "matches (Cls rs) (i, s, caps) =
     (case s of [] \<Rightarrow> [] | x # xs \<Rightarrow> if in_ranges x rs then [(Suc i, xs, caps)] else [])"
| "matches (NCls rs) (i, s, caps) =
     (case s of [] \<Rightarrow> [] | x # xs \<Rightarrow> if in_ranges x rs then [] else [(Suc i, xs, caps)])"
| "matches Dot (i, s, caps) =
     (case s of [] \<Rightarrow> [] | x # xs \<Rightarrow> if in_ranges x line_terminators then [] else [(Suc i, xs, caps)])"
| "matches Bol (i, s, caps) = (if i = 0 then [(i, s, caps)] else [])"
| "matches Eol (i, s, caps) = (if s = [] then [(i, s, caps)] else [])"
| "matches Eps (i, s, caps) = [(i, s, caps)]"
| "matches (Seq a b) (i, s, caps) = concat (map (matches b) (matches a (i, s, caps)))"
| "matches (Alt a b) (i, s, caps) = matches a (i, s, caps) @ matches b (i, s, caps)"
| "matches (Star a) (i, s, caps) =
     concat (map (\<lambda>st. if length (fst (snd st)) < length s then matches (Star a) st else [])
                 (matches a (i, s, caps)))
     @ [(i, s, caps)]"
| "matches (Group k a) (i, s, caps) =
     map (\<lambda>st. (fst st, fst (snd st), (snd (snd st))(k := Some (take (fst st - i) s))))
         (matches a (i, s, caps))"
  by pat_completeness auto
termination
  by (relation "measures [\<lambda>p. size (fst p), \<lambda>p. length (fst (snd (snd p)))]") auto

definition Plus :: "regex \<Rightarrow> regex" where
  "Plus r = Seq r (Star r)"

definition Opt :: "regex \<Rightarrow> regex" where
  "Opt r = Alt r Eps"

fun Rep :: "nat \<Rightarrow> regex \<Rightarrow> regex" where
  "Rep 0 r = Eps"
| "Rep (Suc n) r = Seq r (Rep n r)"

fun Lit :: "jsstring \<Rightarrow> regex" where
  "Lit [] = Eps"
| "Lit (c # cs) = Seq (Chr c) (Lit cs)"

fun Seqs :: "regex list \<Rightarrow> regex" where
  "Seqs [] = Eps"
| "Seqs (r # rs) = Seq r (Seqs rs)"

fun Alts :: "regex list \<Rightarrow> regex" where
  "Alts [] = NCls [(0, 0xFFFF)]"
| "Alts [r] = r"
| "Alts (r # rs) = Alt r (Alts rs)"

text \<open>
  \<open>RegExp.prototype.exec\<close> of a pattern without flags: the match at the leftmost start
  index that has one, and there the matcher's first; the result is the captures
  (\<open>m[k]\<close> is \<open>m k\<close>, \<open>None\<close> for \<open>undefined\<close>).  \<open>test\<close> tells whether there is a match.
\<close>

definition exec :: "regex \<Rightarrow> jsstring \<Rightarrow> captures option" where
  "exec re s =
     (case concat (map (\<lambda>i. matches re (i, drop i s, (\<lambda>k. None))) [0 ..< Suc (length s)]) of
        [] \<Rightarrow> None
      | st # _ \<Rightarrow> Some (snd (snd st)))"

definition test :: "regex \<Rightarrow> jsstring \<Rightarrow> bool" where
  "test re s = (exec re s \<noteq> None)"

section \<open>Decoding\<close>

subsection \<open>Platform functions\<close>

text \<open>
  \<open>parseInt(s, 16)\<close>: leading white space, a sign and a \<open>0x\<close> prefix are skipped, then
  the longest run of hexadecimal digits is read; with no digit the result is \<open>NaN\<close>.
\<close>

definition hexval :: "jschar \<Rightarrow> nat option" where
  "hexval c =
     (if 48 \<le> c \<and> c \<le> 57 then Some (unat c - 48)
      else if 97 \<le> c \<and> c \<le> 102 then Some (unat c - 87)
      else if 65 \<le> c \<and> c \<le> 70 then Some (unat c - 55)
      else None)"

fun hex_prefix :: "jsstring \<Rightarrow> nat list" where
  "hex_prefix [] = []"
| "hex_prefix (c # cs) = (case hexval c of None \<Rightarrow> [] | Some d \<Rightarrow> d # hex_prefix cs)"

definition parseInt16 :: "jsstring \<Rightarrow> number" where
  "parseInt16 s =
     (let s1 = dropWhile (\<lambda>c. in_ranges c whitespace) s;
          neg = (take 1 s1 = js ''-'');
          s2 = (if take 1 s1 = js ''-'' \<or> take 1 s1 = js ''+'' then drop 1 s1 else s1);
          s3 = (if take 2 s2 = js ''0x'' \<or> take 2 s2 = js ''0X'' then drop 2 s2 else s2);
          ds = hex_prefix s3
      in if ds = [] then NaN
         else Num ((if neg then - 1 else 1) * int (foldl (\<lambda>a d. 16 * a + d) 0 ds)))"

text \<open>The element conversion of \<open>new Uint8Array(numbers)\<close>.\<close>

fun ToUint8 :: "number \<Rightarrow> byte" where
  "ToUint8 (Num v) = word_of_int v"
| "ToUint8 NaN = 0"

text \<open>\<open>String.prototype.split\<close> with a non-empty separator string.\<close>

function split_from :: "jsstring \<Rightarrow> jsstring \<Rightarrow> jsstring \<Rightarrow> jsstring list" where
  "split_from sep cur [] = [cur]"
| "split_from sep cur (x # xs) =
     (if sep \<noteq> [] \<and> take (length sep) (x # xs) = sep
      then cur # split_from sep [] (drop (length sep) (x # xs))
      else split_from sep (cur @ [x]) xs)"
  by pat_completeness auto
termination
  by (relation "measure (\<lambda>p. length (snd (snd p)))") auto

definition split :: "jsstring \<Rightarrow> jsstring \<Rightarrow> jsstring list" where
  "split sep s = split_from sep [] s"

text \<open>
  \<open>DataView.prototype.getUint32/getBigUint64\<close>: the unsigned value of \<open>n\<close> bytes at a
  byte offset; a read that does not fit throws a RangeError.
\<close>

fun le_value :: "byte list \<Rightarrow> nat" where
  "le_value [] = 0"
| "le_value (b # bs) = unat b + 256 * le_value bs"

definition dv_get :: "nat \<Rightarrow> byte list \<Rightarrow> nat \<Rightarrow> bool \<Rightarrow> exn + nat" where
  "dv_get n buf off littleEndian =
     (if off + n \<le> length buf
      then Inr (le_value (if littleEndian then take n (drop off buf) else rev (take n (drop off buf))))
      else Inl RangeError)"

text \<open>
  \<open>new TextDecoder('utf-16le').decode(buffer)\<close>: two bytes make a code unit; a surrogate
  without its partner and a byte left over at the end decode to U+FFFD; a byte order mark
  at the start is dropped.  The second argument is the lead surrogate read last, if any.
\<close>

definition code_unit :: "byte \<Rightarrow> byte \<Rightarrow> jschar" where
  "code_unit b1 b2 = ucast b1 + 256 * ucast b2"

definition is_lead :: "jschar \<Rightarrow> bool" where
  "is_lead c = (0xD800 \<le> c \<and> c \<le> 0xDBFF)"

definition is_trail :: "jschar \<Rightarrow> bool" where
  "is_trail c = (0xDC00 \<le> c \<and> c \<le> 0xDFFF)"

fun utf16le :: "byte list \<Rightarrow> jschar option \<Rightarrow> jsstring" where
  "utf16le [] None = []"
| "utf16le [] (Some ls) = [0xFFFD]"
| "utf16le [b] ls = [0xFFFD]"
| "utf16le (b1 # b2 # bs) None =
     (if is_lead (code_unit b1 b2) then utf16le bs (Some (code_unit b1 b2))
      else if is_trail (code_unit b1 b2) then 0xFFFD # utf16le bs None
      else code_unit b1 b2 # utf16le bs None)"
| "utf16le (b1 # b2 # bs) (Some ls) =
     (if is_trail (code_unit b1 b2) then ls # code_unit b1 b2 # utf16le bs None
      else 0xFFFD # utf16le (b1 # b2 # bs) None)"

definition TextDecoder_utf16le :: "byte list \<Rightarrow> jsstring" where
  "TextDecoder_utf16le buffer =
     (case utf16le buffer None of
        [] \<Rightarrow> []
      | c # cs \<Rightarrow> if c = 0xFEFF then cs else c # cs)"

definition bytes_to_string :: "byte list \<Rightarrow> jsstring" where
  "bytes_to_string buffer =
     (let s = TextDecoder_utf16le buffer
      in if s \<noteq> [] \<and> last s = 0 then butlast s else s)"

subsection \<open>regstring_to_data\<close>

definition hexdigits :: "(jschar \<times> jschar) list" where
  "hexdigits = [(48, 57), (97, 102), (65, 70)]"

text \<open>
  The pattern
  \<^verbatim>\<open>"(.*)"|(dword):([0-9a-fA-F]{8})|hex(\([0-0a-fA-F]+\))?:((?:[0-9a-fA-F]{2},)*[0-9a-fA-F]{2})\<close>
  of the source; the class of its fourth group is \<^verbatim>\<open>[0-0a-fA-F]\<close>.
\<close>

definition regstring_re :: regex where
  "regstring_re = Alts [
     Seqs [Chr 34, Group 1 (Star Dot), Chr 34],
     Seqs [Group 2 (Lit (js ''dword'')), Chr 58, Group 3 (Rep 8 (Cls hexdigits))],
     Seqs [Lit (js ''hex''),
           Opt (Group 4 (Seqs [Chr 40, Plus (Cls [(48, 48), (97, 102), (65, 70)]), Chr 41])),
           Chr 58,
           Group 5 (Seq (Star (Seq (Rep 2 (Cls hexdigits)) (Chr 44))) (Rep 2 (Cls hexdigits)))]]"

text \<open>
  A capture is truthy when it took part in the match and is not empty.  The result is
  \<open>Inr None\<close> for \<open>undefined\<close> and \<open>Inl\<close> for a thrown exception.
\<close>

definition truthy :: "jsstring option \<Rightarrow> bool" where
  "truthy m = (case m of None \<Rightarrow> False | Some s \<Rightarrow> s \<noteq> [])"

definition parseInt16_opt :: "jsstring option \<Rightarrow> number" where
  "parseInt16_opt m = (case m of None \<Rightarrow> NaN | Some s \<Rightarrow> parseInt16 s)"

definition tagged_data :: "number \<Rightarrow> byte list \<Rightarrow> exn + Data option" where
  "tagged_data tag data =
     (if tag = Num 0 then Inr (Some (NONE data))
      else if tag = Num 1 then Inr (Some (SZ (bytes_to_string data)))
      else if tag = Num 2 then Inr (Some (EXPAND_SZ (bytes_to_string data)))
      else if tag = Num 3 then Inr (Some (BINARY data))
      else if tag = Num 4 then
        (case dv_get 4 data 0 True of Inl e \<Rightarrow> Inl e | Inr v \<Rightarrow> Inr (Some (DWORD (Num (int v)))))
      else if tag = Num 5 then
        (case dv_get 4 data 0 False of
           Inl e \<Rightarrow> Inl e
         | Inr v \<Rightarrow> Inr (Some (DWORD_BIG_ENDIAN (Num (int v)))))
      else if tag = Num 6 then Inr (Some (LINK data))
      else if tag = Num 7 then Inr (Some (MULTI_SZ (split [0] (bytes_to_string data))))
      else if tag = Num 8 then Inr (Some (RESOURCE_LIST data))
      else if tag = Num 9 then Inr (Some (FULL_RESOURCE_DESCRIPTOR data))
      else if tag = Num 10 then Inr (Some (RESOURCE_REQUIREMENTS_LIST data))
      else if tag = Num 11 then
        (case dv_get 8 data 0 True of Inl e \<Rightarrow> Inl e | Inr v \<Rightarrow> Inr (Some (QWORD (int v))))
      else Inr (Some (NONE data)))"

definition regstring_to_data :: "jsstring \<Rightarrow> exn + Data option" where
  "regstring_to_data value =
     (case exec regstring_re value of
        None \<Rightarrow> Inr None
      | Some m \<Rightarrow>
          if truthy (m 1) then Inr (Some (SZ (case m 1 of Some s \<Rightarrow> s | None \<Rightarrow> [])))
          else if truthy (m 2) then Inr (Some (DWORD (parseInt16_opt (m 3))))
          else
            (case m 5 of
               None \<Rightarrow> Inl TypeError
             | Some m5 \<Rightarrow>
                 (let data = map (\<lambda>v. ToUint8 (parseInt16 v)) (split (js '','') m5)
                  in if \<not> truthy (m 4) then Inr (Some (BINARY data))
                     else tagged_data (parseInt16_opt (m 4)) data)))"

subsection \<open>The strict form as the specification words it\<close>

text \<open>
  The specification's table of strict tags, and the strict rendering it describes: the
  tag in parentheses (none for a binary value) between \<open>hex\<close> and the colon, then the
  bytes of the raw encoding.  \<open>strict_is_hex\<close> holds of the values that
  \<open>data_to_regstring\<close> has a hexadecimal form for whose bytes it takes from the value as
  the raw encoding does; \<open>roundtrip\<close> decodes the strict form of a value.
\<close>

fun spec_tag :: "Data \<Rightarrow> jsstring" where
  "spec_tag (NONE _) = js ''(0)''"
| "spec_tag (SZ _) = js ''(1)''"
| "spec_tag (EXPAND_SZ _) = js ''(2)''"
| "spec_tag (BINARY _) = []"
| "spec_tag (DWORD _) = js ''(4)''"
| "spec_tag (DWORD_BIG_ENDIAN _) = js ''(5)''"
| "spec_tag (LINK _) = js ''(6)''"
| "spec_tag (MULTI_SZ _) = js ''(7)''"
| "spec_tag (RESOURCE_LIST _) = js ''(8)''"
| "spec_tag (FULL_RESOURCE_DESCRIPTOR _) = js ''(9)''"
| "spec_tag (RESOURCE_REQUIREMENTS_LIST _) = js ''(a)''"
| "spec_tag (QWORD _) = js ''(11)''"

definition spec_strict :: "Data \<Rightarrow> jsstring" where
  "spec_strict v = js ''hex'' @ spec_tag v @ js '':'' @ bytes_to_hex (raw v)"

fun strict_is_hex :: "Data \<Rightarrow> bool" where
  "strict_is_hex (SZ _) = False"
| "strict_is_hex (DWORD _) = False"
| "strict_is_hex (DWORD_BIG_ENDIAN _) = False"
| "strict_is_hex _ = True"

definition roundtrip :: "Data \<Rightarrow> exn + Data option" where
  "roundtrip v = (case data_to_regstring v True of Inl e \<Rightarrow> Inl e | Inr s \<Rightarrow> regstring_to_data s)"

text \<open>The code units of a list of strings, each followed by its terminator.\<close>

definition enc16 :: "jsstring list \<Rightarrow> jschar list" where
  "enc16 d = concat (map (\<lambda>s. s @ [0]) d)"

section \<open>Strings, patterns and type names of the key tree\<close>

subsection \<open>String functions of the platform\<close>

definition startsWith :: "jsstring \<Rightarrow> jsstring \<Rightarrow> bool" where
  "startsWith s pre = (take (length pre) s = pre)"

text \<open>
  \<open>indexOf\<close> of a string in a string from a position, and of an element in an array;
  \<open>-1\<close> when there is none.
\<close>

fun index_from :: "jsstring \<Rightarrow> jsstring \<Rightarrow> nat \<Rightarrow> int" where
  "index_from pat [] k = (if pat = [] then int k else - 1)"
| "index_from pat (x # xs) k =
     (if take (length pat) (x # xs) = pat then int k else index_from pat xs (Suc k))"

definition indexOf :: "jsstring \<Rightarrow> jsstring \<Rightarrow> nat \<Rightarrow> int" where
  "indexOf s pat pos = index_from pat (drop (min pos (length s)) s) (min pos (length s))"

fun array_indexOf :: "'a list \<Rightarrow> 'a \<Rightarrow> int" where
  "array_indexOf [] x = - 1"
| "array_indexOf (y # ys) x =
     (if y = x then 0 else if array_indexOf ys x = - 1 then - 1 else array_indexOf ys x + 1)"

text \<open>
  \<open>substring(start, end)\<close> clamps its arguments to the string and swaps them when the
  first is the greater; \<open>substring(start)\<close> runs to the end of the string.
\<close>

definition substring :: "jsstring \<Rightarrow> int \<Rightarrow> int \<Rightarrow> jsstring" where
  "substring s a b =
     (let n = int (length s);
          a' = max 0 (min a n);
          b' = max 0 (min b n)
      in take (nat (max a' b' - min a' b')) (drop (nat (min a' b')) s))"

definition substring_from :: "jsstring \<Rightarrow> int \<Rightarrow> jsstring" where
  "substring_from s a = substring s a (int (length s))"

definition trim :: "jsstring \<Rightarrow> jsstring" where
  "trim s = rev (dropWhile (\<lambda>c. in_ranges c whitespace) (rev (dropWhile (\<lambda>c. in_ranges c whitespace) s)))"

text \<open>
  \<open>BigInt(s)\<close> of a string: white space around the literal is dropped; the empty string
  is 0; a literal is a run of decimal digits with an optional sign, or \<open>0x\<close>, \<open>0o\<close> or
  \<open>0b\<close> and digits of that radix; anything else throws a SyntaxError.
\<close>

fun digits_value :: "nat \<Rightarrow> nat \<Rightarrow> jsstring \<Rightarrow> nat option" where
  "digits_value radix acc [] = Some acc"
| "digits_value radix acc (c # cs) =
     (case hexval c of
        None \<Rightarrow> None
      | Some d \<Rightarrow> if d < radix then digits_value radix (radix * acc + d) cs else None)"

definition digits :: "nat \<Rightarrow> jsstring \<Rightarrow> exn + int" where
  "digits radix s =
     (if s = [] then Inl SyntaxError
      else case digits_value radix 0 s of None \<Rightarrow> Inl SyntaxError | Some v \<Rightarrow> Inr (int v))"

definition BigInt :: "jsstring \<Rightarrow> exn + int" where
  "BigInt s =
     (let t = trim s
      in if t = [] then Inr 0
         else if take 2 t = js ''0x'' \<or> take 2 t = js ''0X'' then digits 16 (drop 2 t)
         else if take 2 t = js ''0o'' \<or> take 2 t = js ''0O'' then digits 8 (drop 2 t)
         else if take 2 t = js ''0b'' \<or> take 2 t = js ''0B'' then digits 2 (drop 2 t)
         else if take 1 t = js ''-'' then
           (case digits 10 (drop 1 t) of Inl e \<Rightarrow> Inl e | Inr v \<Rightarrow> Inr (- v))
         else if take 1 t = js ''+'' then digits 10 (drop 1 t)
         else digits 10 t)"

subsection \<open>The patterns\<close>

text \<open>
  \<open>KEY_PATTERN\<close> is \<^verbatim>\<open>/(\\[a-zA-Z0-9_\s]+)*/\<close>, \<open>PATH_PATTERN\<close> is
  \<^verbatim>\<open>/^(HKEY_LOCAL_MACHINE|HKEY_CURRENT_USER|HKEY_CLASSES_ROOT|HKEY_USERS|HKEY_CURRENT_CONFIG).*\\(.*)$/\<close>
  and \<open>ITEM_PATTERN\<close> is
  \<^verbatim>\<open>/^(.*)\s(REG_SZ|REG_MULTI_SZ|REG_EXPAND_SZ|REG_DWORD|REG_QWORD|REG_BINARY|REG_NONE)\s+([^\s].*)$/\<close>.
  The backslash is the character 92.
\<close>

definition HIVES_SHORT :: "jsstring list" where
  "HIVES_SHORT = [js ''HKLM'', js ''HKU'', js ''HKCU'', js ''HKCR'', js ''HKCC'']"

definition HIVES_LONG :: "jsstring list" where
  "HIVES_LONG = [js ''HKEY_LOCAL_MACHINE'', js ''HKEY_USERS'', js ''HKEY_CURRENT_USER'',
     js ''HKEY_CLASSES_ROOT'', js ''HKEY_CURRENT_CONFIG'']"

definition KEY_PATTERN :: regex where
  "KEY_PATTERN =
     Star (Group 1 (Seq (Chr 92) (Plus (Cls ([(97, 122), (65, 90), (48, 57), (95, 95)] @ whitespace)))))"

definition PATH_PATTERN :: regex where
  "PATH_PATTERN = Seqs [Bol,
     Group 1 (Alts [Lit (js ''HKEY_LOCAL_MACHINE''), Lit (js ''HKEY_CURRENT_USER''),
       Lit (js ''HKEY_CLASSES_ROOT''), Lit (js ''HKEY_USERS''), Lit (js ''HKEY_CURRENT_CONFIG'')]),
     Star Dot, Chr 92, Group 2 (Star Dot), Eol]"

definition ITEM_PATTERN :: regex where
  "ITEM_PATTERN = Seqs [Bol, Group 1 (Star Dot), Cls whitespace,
     Group 2 (Alts [Lit (js ''REG_SZ''), Lit (js ''REG_MULTI_SZ''), Lit (js ''REG_EXPAND_SZ''),
       Lit (js ''REG_DWORD''), Lit (js ''REG_QWORD''), Lit (js ''REG_BINARY''), Lit (js ''REG_NONE'')]),
     Plus (Cls whitespace), Group 3 (Seq (NCls whitespace) (Star Dot)), Eol]"

subsection \<open>Type names and the parsers of the value classes\<close>

text \<open>
  The classes as entries of \<open>TYPES\<close>, with their static \<open>parse\<close>.  The conversion
  \<open>+s\<close> of a string to a number in \<open>DWORD.parse\<close> is the parameter \<open>ToNumber\<close>.
\<close>

datatype Type =
    T_NONE | T_SZ | T_EXPAND_SZ | T_BINARY | T_DWORD | T_DWORD_BIG_ENDIAN | T_LINK | T_MULTI_SZ
  | T_RESOURCE_LIST | T_FULL_RESOURCE_DESCRIPTOR | T_RESOURCE_REQUIREMENTS_LIST | T_QWORD

fun chunks2 :: "jsstring \<Rightarrow> jsstring list" where
  "chunks2 [] = []"
| "chunks2 [a] = [[a]]"
| "chunks2 (a # b # cs) = [a, b] # chunks2 cs"

definition hex_to_bytes :: "jsstring \<Rightarrow> byte list" where
  "hex_to_bytes s = map (\<lambda>i. ToUint8 (parseInt16 i)) (chunks2 s)"

fun parse :: "(jsstring \<Rightarrow> number) \<Rightarrow> Type \<Rightarrow> jsstring \<Rightarrow> exn + Data" where
  "parse ToNumber T_NONE s = Inr (NONE (hex_to_bytes s))"
| "parse ToNumber T_BINARY s = Inr (BINARY (hex_to_bytes s))"
| "parse ToNumber T_LINK s = Inr (LINK (hex_to_bytes s))"
| "parse ToNumber T_RESOURCE_LIST s = Inr (RESOURCE_LIST (hex_to_bytes s))"
| "parse ToNumber T_FULL_RESOURCE_DESCRIPTOR s = Inr (FULL_RESOURCE_DESCRIPTOR (hex_to_bytes s))"
| "parse ToNumber T_RESOURCE_REQUIREMENTS_LIST s = Inr (RESOURCE_REQUIREMENTS_LIST (hex_to_bytes s))"
| "parse ToNumber T_SZ s = Inr (SZ s)"
| "parse ToNumber T_EXPAND_SZ s = Inr (EXPAND_SZ s)"
| "parse ToNumber T_DWORD s = Inr (DWORD (ToNumber s))"
| "parse ToNumber T_DWORD_BIG_ENDIAN s = Inr (DWORD_BIG_ENDIAN (ToNumber s))"
| "parse ToNumber T_MULTI_SZ s = Inr (MULTI_SZ (split [92, 48] s))"
| "parse ToNumber T_QWORD s = (case BigInt s of Inl e \<Rightarrow> Inl e | Inr v \<Rightarrow> Inr (QWORD v))"

definition TYPES :: "jsstring \<Rightarrow> Type option" where
  "TYPES = map_of [
     (js ''NONE'', T_NONE), (js ''SZ'', T_SZ), (js ''EXPAND_SZ'', T_EXPAND_SZ),
     (js ''BINARY'', T_BINARY), (js ''DWORD'', T_DWORD),
     (js ''DWORD_BIG_ENDIAN'', T_DWORD_BIG_ENDIAN), (js ''LINK'', T_LINK),
     (js ''MULTI_SZ'', T_MULTI_SZ), (js ''RESOURCE_LIST'', T_RESOURCE_LIST),
     (js ''FULL_RESOURCE_DESCRIPTOR'', T_FULL_RESOURCE_DESCRIPTOR),
     (js ''RESOURCE_REQUIREMENTS_LIST'', T_RESOURCE_REQUIREMENTS_LIST), (js ''QWORD'', T_QWORD)]"

definition string_to_type :: "jsstring \<Rightarrow> Type option" where
  "string_to_type type = TYPES (if startsWith type (js ''REG_'') then substring_from type 4 else type)"

section \<open>The key tree\<close>

subsection \<open>Objects, promises and the state\<close>

text \<open>
  A \<open>KeyImp\<close> object is a reference into the heap; \<open>fresh\<close> counts the objects
  created so far, and \<open>new KeyImp\<close> takes the next reference.  \<open>found\<close> is \<open>False\<close>
  for \<open>undefined\<close> (no code sets it to \<open>false\<close>).  A \<open>Record\<close> is a map from its
  keys (properties inherited from \<open>Object.prototype\<close> are not modelled).

  \<open>_items\<close> holds a promise of a value set.  A promise is pending, with the reactions that
  \<open>then\<close> has attached to it so far, fulfilled with a value set, or rejected.  The value
  set is one mutable object: a reaction attached to a fulfilled promise changes it at once,
  reactions attached to a pending promise change it, in their order, when it is fulfilled.

  \<open>spawned\<close> lists the argument lists of the external commands started so far.  A
  command ends by \<open>Close stdout\<close> (exit code 0) or by \<open>Reject err\<close> (it could not be
  started, or its exit code was not 0).
\<close>

type_synonym ref = nat
type_synonym pid = nat
type_synonym valueset = "jsstring \<Rightarrow> Data option"

datatype RegError = RegError jsstring int

datatype reason = Command_failed RegError | Thrown exn

datatype reaction = Purge | Remove jsstring | Store jsstring Data

datatype promise = Pending "reaction list" | Fulfilled valueset | Rejected reason

datatype proc = Close jsstring | Reject RegError

record KeyImp =
  name :: jsstring
  parent :: "ref option"
  keys :: "jsstring \<Rightarrow> ref option"
  found :: bool
  items :: "pid option"

record state =
  heap :: "ref \<Rightarrow> KeyImp"
  fresh :: nat
  promises :: "pid \<Rightarrow> promise"
  npromises :: nat
  hosts32 :: "jsstring \<Rightarrow> ref option"
  hosts64 :: "jsstring \<Rightarrow> ref option"
  spawned :: "jsstring list list"

definition init_state :: state where
  "init_state = \<lparr>
     heap = (\<lambda>_. \<lparr>name = [], parent = None, keys = (\<lambda>_. None), found = False, items = None\<rparr>),
     fresh = 0,
     promises = (\<lambda>_. Pending []),
     npromises = 0,
     hosts32 = (\<lambda>_. None),
     hosts64 = (\<lambda>_. None),
     spawned = []\<rparr>"

text \<open>
  The promise a mutating operation returns: settled, or following a value-set promise
  that is still pending (it resolves to \<open>true\<close> when that one is fulfilled and is
  rejected when that one is).
\<close>

datatype result = Resolves bool | Rejects reason | Awaits pid

fun react :: "reaction \<Rightarrow> valueset \<Rightarrow> valueset" where
  "react Purge x = (\<lambda>_. None)"
| "react (Remove key) x = x(key := None)"
| "react (Store key v) x = x(key := Some v)"

definition then_react :: "state \<Rightarrow> pid \<Rightarrow> reaction \<Rightarrow> state" where
  "then_react s p r =
     (case promises s p of
        Pending rs \<Rightarrow> s\<lparr>promises := (promises s)(p := Pending (rs @ [r]))\<rparr>
      | Fulfilled x \<Rightarrow> s\<lparr>promises := (promises s)(p := Fulfilled (react r x))\<rparr>
      | Rejected e \<Rightarrow> s)"

definition resolve :: "state \<Rightarrow> pid \<Rightarrow> valueset \<Rightarrow> state" where
  "resolve s p x =
     (case promises s p of
        Pending rs \<Rightarrow> s\<lparr>promises := (promises s)(p := Fulfilled (foldl (\<lambda>y r. react r y) x rs))\<rparr>
      | Fulfilled y \<Rightarrow> s
      | Rejected e \<Rightarrow> s)"

definition reject :: "state \<Rightarrow> pid \<Rightarrow> reason \<Rightarrow> state" where
  "reject s p e =
     (case promises s p of
        Pending rs \<Rightarrow> s\<lparr>promises := (promises s)(p := Rejected e)\<rparr>
      | Fulfilled y \<Rightarrow> s
      | Rejected e' \<Rightarrow> s)"

definition new_promise :: "state \<Rightarrow> pid \<times> state" where
  "new_promise s =
     (npromises s, s\<lparr>promises := (promises s)(npromises s := Pending []), npromises := Suc (npromises s)\<rparr>)"

definition new_KeyImp :: "state \<Rightarrow> jsstring \<Rightarrow> ref option \<Rightarrow> ref \<times> state" where
  "new_KeyImp s nm par =
     (fresh s,
      s\<lparr>heap := (heap s)(fresh s :=
           \<lparr>name = nm, parent = par, keys = (\<lambda>_. None), found = False, items = None\<rparr>),
        fresh := Suc (fresh s)\<rparr>)"

definition set_keys :: "state \<Rightarrow> ref \<Rightarrow> jsstring \<Rightarrow> ref option \<Rightarrow> state" where
  "set_keys s p k c = s\<lparr>heap := (heap s)(p := (heap s p)\<lparr>keys := (keys (heap s p))(k := c)\<rparr>)\<rparr>"

definition set_found :: "state \<Rightarrow> ref \<Rightarrow> state" where
  "set_found s p = s\<lparr>heap := (heap s)(p := (heap s p)\<lparr>found := True\<rparr>)\<rparr>"

definition set_items :: "state \<Rightarrow> ref \<Rightarrow> pid \<Rightarrow> state" where
  "set_items s p v = s\<lparr>heap := (heap s)(p := (heap s p)\<lparr>items := Some v\<rparr>)\<rparr>"

subsection \<open>Paths, views and commands\<close>

text \<open>
  The loop of \<open>getRootAndPath\<close> follows the parents while there is one; a walk that does
  not end is \<open>None\<close>.
\<close>

partial_function (option) walk_up :: "(ref \<Rightarrow> KeyImp) \<Rightarrow> ref \<Rightarrow> jsstring \<Rightarrow> (ref \<times> jsstring) option" where
  "walk_up h p key =
     (case parent (h p) of
        None \<Rightarrow> Some (p, key)
      | Some q \<Rightarrow> walk_up h q (name (h p) @ [92] @ key))"

declare walk_up.simps [code]

definition getRootAndPath :: "state \<Rightarrow> ref \<Rightarrow> (ref \<times> jsstring) option" where
  "getRootAndPath s this =
     (case parent (heap s this) of
        None \<Rightarrow> Some (this, name (heap s this))
      | Some p \<Rightarrow>
          (case walk_up (heap s) p (name (heap s this)) of
             None \<Rightarrow> None
           | Some (r, key) \<Rightarrow>
               Some (r, if name (heap s r) \<noteq> [] then [92, 92] @ name (heap s r) @ [92] @ key
                        else key)))"

definition view_of_root :: "state \<Rightarrow> ref \<Rightarrow> jsstring" where
  "view_of_root s root = (if hosts32 s (name (heap s root)) = Some root then js ''32'' else js ''64'')"

definition getView :: "state \<Rightarrow> ref \<Rightarrow> ref option \<Rightarrow> jsstring option" where
  "getView s this root =
     (case root of
        Some r \<Rightarrow> Some (view_of_root s r)
      | None \<Rightarrow>
          (case getRootAndPath s this of
             None \<Rightarrow> None
           | Some (r, _) \<Rightarrow> Some (view_of_root s r)))"

definition runCommand :: "state \<Rightarrow> ref \<Rightarrow> jsstring \<Rightarrow> jsstring list \<Rightarrow> state option" where
  "runCommand s this command args =
     (case getRootAndPath s this of
        None \<Rightarrow> None
      | Some (root, fullpath) \<Rightarrow>
          Some (s\<lparr>spawned := spawned s @
            [[command, quoted fullpath] @ args @ [js ''/reg:'' @ view_of_root s root]]\<rparr>))"

text \<open>\<open>argName\<close>, and \<open>argData\<close> with the string that a template literal makes of a payload.\<close>

fun toString10 :: "nat \<Rightarrow> jsstring" where
  "toString10 n = (if n < 10 then [hexdigit n] else toString10 (n div 10) @ [hexdigit (n mod 10)])"

declare toString10.simps [simp del]

definition int_toString10 :: "int \<Rightarrow> jsstring" where
  "int_toString10 v = (if v < 0 then js ''-'' @ toString10 (nat (- v)) else toString10 (nat v))"

fun number_toString10 :: "number \<Rightarrow> jsstring" where
  "number_toString10 (Num v) = int_toString10 v"
| "number_toString10 NaN = js ''NaN''"

definition bytes_toString :: "byte list \<Rightarrow> jsstring" where
  "bytes_toString bs = join (js '','') (map (\<lambda>b. toString10 (unat b)) bs)"

fun constructor_name :: "Data \<Rightarrow> jsstring" where
  "constructor_name (NONE _) = js ''NONE''"
| "constructor_name (BINARY _) = js ''BINARY''"
| "constructor_name (LINK _) = js ''LINK''"
| "constructor_name (RESOURCE_LIST _) = js ''RESOURCE_LIST''"
| "constructor_name (FULL_RESOURCE_DESCRIPTOR _) = js ''FULL_RESOURCE_DESCRIPTOR''"
| "constructor_name (RESOURCE_REQUIREMENTS_LIST _) = js ''RESOURCE_REQUIREMENTS_LIST''"
| "constructor_name (SZ _) = js ''SZ''"
| "constructor_name (EXPAND_SZ _) = js ''EXPAND_SZ''"
| "constructor_name (DWORD _) = js ''DWORD''"
| "constructor_name (DWORD_BIG_ENDIAN _) = js ''DWORD_BIG_ENDIAN''"
| "constructor_name (MULTI_SZ _) = js ''MULTI_SZ''"
| "constructor_name (QWORD _) = js ''QWORD''"

fun value_toString :: "Data \<Rightarrow> jsstring" where
  "value_toString (NONE v) = bytes_toString v"
| "value_toString (BINARY v) = bytes_toString v"
| "value_toString (LINK v) = bytes_toString v"
| "value_toString (RESOURCE_LIST v) = bytes_toString v"
| "value_toString (FULL_RESOURCE_DESCRIPTOR v) = bytes_toString v"
| "value_toString (RESOURCE_REQUIREMENTS_LIST v) = bytes_toString v"
| "value_toString (SZ v) = v"
| "value_toString (EXPAND_SZ v) = v"
| "value_toString (DWORD v) = number_toString10 v"
| "value_toString (DWORD_BIG_ENDIAN v) = number_toString10 v"
| "value_toString (MULTI_SZ v) = join (js '','') v"
| "value_toString (QWORD v) = int_toString10 v"

definition argName :: "jsstring \<Rightarrow> jsstring list" where
  "argName nm = (if nm \<noteq> [] then [js ''/v'', nm] else [js ''/ve''])"

definition argData :: "Data \<Rightarrow> jsstring list" where
  "argData v =
     [js ''/t'', js ''REG_'' @ constructor_name v]
     @ (case v of MULTI_SZ _ \<Rightarrow> [js ''/s'', js '',''] | _ \<Rightarrow> [])
     @ [js ''/d'', quoted (value_toString v)]"

subsection \<open>Operations of a key\<close>

text \<open>
  An asynchronous operation is modelled by two functions: the call, which runs until the
  external command is started, and \<open>_settled\<close>, the callback that runs when the command
  has ended.  A callback gives the state and, for a mutating operation, the \<open>result\<close> of
  the promise the call returned.
\<close>

definition add_found_key :: "state \<Rightarrow> ref \<Rightarrow> jsstring \<Rightarrow> state" where
  "add_found_key s this key =
     (if key \<noteq> [] \<and> key \<noteq> name (heap s this) then
        (case keys (heap s this) key of
           Some c \<Rightarrow> set_found s c
         | None \<Rightarrow>
             (case new_KeyImp s key (Some this) of
                (c, s') \<Rightarrow> set_found (set_keys s' this key (Some c)) c))
      else s)"

text \<open>
  One line of the output of QUERY.  The accumulator is the state and either the
  exception a parser has thrown or the value set and the line count so far.  Every match
  of \<open>ITEM_PATTERN\<close> sets its three groups; the case of an unset group, which no input
  reaches, is written as a TypeError.
\<close>

definition reread_line ::
  "(jsstring \<Rightarrow> number) \<Rightarrow> ref \<Rightarrow> state \<times> (exn + valueset \<times> nat) \<Rightarrow> jsstring
     \<Rightarrow> state \<times> (exn + valueset \<times> nat)" where
  "reread_line ToNumber this acc i =
     (case acc of
        (s, Inl e) \<Rightarrow> (s, Inl e)
      | (s, Inr (its, lineNumber)) \<Rightarrow>
          if trim i = [] then (s, Inr (its, lineNumber))
          else
            (case (if lineNumber \<noteq> 0 then exec ITEM_PATTERN (trim i) else None) of
               Some m \<Rightarrow>
                 (case (m 1, m 2, m 3) of
                    (Some m1, Some m2, Some m3) \<Rightarrow>
                      (case string_to_type (trim m2) of
                         None \<Rightarrow> (s, Inr (its, Suc lineNumber))
                       | Some ty \<Rightarrow>
                           (case parse ToNumber ty m3 of
                              Inl e \<Rightarrow> (s, Inl e)
                            | Inr d \<Rightarrow> (s, Inr (its(trim m1 := Some d), Suc lineNumber))))
                  | _ \<Rightarrow> (s, Inl TypeError))
             | None \<Rightarrow>
                 (case exec PATH_PATTERN (trim i) of
                    None \<Rightarrow> (s, Inr (its, Suc lineNumber))
                  | Some m \<Rightarrow>
                      (case m 2 of
                         None \<Rightarrow> (s, Inr (its, Suc lineNumber))
                       | Some key \<Rightarrow> (add_found_key s this key, Inr (its, Suc lineNumber))))))"

definition reread_lines ::
  "(jsstring \<Rightarrow> number) \<Rightarrow> state \<Rightarrow> ref \<Rightarrow> jsstring \<Rightarrow> state \<times> (exn + valueset \<times> nat)" where
  "reread_lines ToNumber s this stdout =
     foldl (reread_line ToNumber this) (s, Inr ((\<lambda>_. None), 0)) (split [10] stdout)"

text \<open>
  The loop \<open>for (p = this; !p.found && p.parent; p = p.parent) p.found = true\<close>; a walk
  that does not end is \<open>None\<close>.
\<close>

partial_function (option) mark_found :: "(ref \<Rightarrow> KeyImp) \<Rightarrow> ref \<Rightarrow> (ref \<Rightarrow> KeyImp) option" where
  "mark_found h p =
     (if found (h p) then Some h
      else case parent (h p) of
        None \<Rightarrow> Some h
      | Some q \<Rightarrow> mark_found (h(p := (h p)\<lparr>found := True\<rparr>)) q)"

declare mark_found.simps [code]

definition reread :: "state \<Rightarrow> ref \<Rightarrow> (pid \<times> state) option" where
  "reread s this =
     (case runCommand s this (js ''QUERY'') [] of
        None \<Rightarrow> None
      | Some s1 \<Rightarrow> (case new_promise s1 of (p, s2) \<Rightarrow> Some (p, set_items s2 this p)))"

definition reread_settled ::
  "(jsstring \<Rightarrow> number) \<Rightarrow> state \<Rightarrow> ref \<Rightarrow> pid \<Rightarrow> proc \<Rightarrow> state option" where
  "reread_settled ToNumber s this p outcome =
     (case outcome of
        Reject err \<Rightarrow> Some (reject s p (Command_failed err))
      | Close stdout \<Rightarrow>
          (case reread_lines ToNumber s this stdout of
             (s1, Inl e) \<Rightarrow> Some (reject s1 p (Thrown e))
           | (s1, Inr (its, _)) \<Rightarrow>
               (case mark_found (heap s1) this of
                  None \<Rightarrow> None
                | Some h \<Rightarrow> Some (resolve (s1\<lparr>heap := h\<rparr>) p its))))"

definition read :: "state \<Rightarrow> ref \<Rightarrow> (pid \<times> state) option" where
  "read s this = (case items (heap s this) of Some p \<Rightarrow> Some (p, s) | None \<Rightarrow> reread s this)"

definition subkey_step :: "ref \<times> state \<Rightarrow> jsstring \<Rightarrow> ref \<times> state" where
  "subkey_step ps i =
     (case ps of (p, s) \<Rightarrow>
        (case keys (heap s p) i of
           Some c \<Rightarrow> (c, s)
         | None \<Rightarrow> (case new_KeyImp s i (Some p) of (c, s') \<Rightarrow> (c, set_keys s' p i (Some c)))))"

definition subkey :: "state \<Rightarrow> ref \<Rightarrow> jsstring \<Rightarrow> ref \<times> state" where
  "subkey s this key = foldl subkey_step (this, s) (split [92] key)"

text \<open>
  \<open>exists\<close> answers at once (\<open>Inl\<close>) when the key or its parent is known to exist, and
  reads otherwise: the answer is then whether the promise of the read (\<open>Inr\<close>) is
  fulfilled.
\<close>

definition exists_call :: "state \<Rightarrow> ref \<Rightarrow> ((bool + pid) \<times> state) option" where
  "exists_call s this =
     (if found (heap s this) then Some (Inl True, s)
      else if (case parent (heap s this) of None \<Rightarrow> False | Some q \<Rightarrow> found (heap s q))
      then Some (Inl False, s)
      else case read s this of None \<Rightarrow> None | Some (p, s') \<Rightarrow> Some (Inr p, s'))"

definition clear :: "state \<Rightarrow> ref \<Rightarrow> state option" where
  "clear s this =
     runCommand (case items (heap s this) of None \<Rightarrow> s | Some p \<Rightarrow> then_react s p Purge)
       this (js ''DELETE'') [js ''/f'', js ''/va'']"

definition clear_settled :: "state \<Rightarrow> ref \<Rightarrow> proc \<Rightarrow> result \<times> state" where
  "clear_settled s this outcome =
     (case outcome of Close _ \<Rightarrow> (Resolves True, s) | Reject _ \<Rightarrow> (Resolves False, s))"

definition destroy :: "state \<Rightarrow> ref \<Rightarrow> state option" where
  "destroy s this = runCommand s this (js ''DELETE'') [js ''/f'']"

definition destroy_settled :: "state \<Rightarrow> ref \<Rightarrow> proc \<Rightarrow> result \<times> state" where
  "destroy_settled s this outcome =
     (case outcome of
        Close _ \<Rightarrow>
          (Resolves True,
           case parent (heap s this) of
             None \<Rightarrow> s
           | Some q \<Rightarrow> set_keys s q (name (heap s this)) None)
      | Reject _ \<Rightarrow> (Resolves False, s))"

definition create :: "state \<Rightarrow> ref \<Rightarrow> state option" where
  "create s this = runCommand s this (js ''ADD'') [js ''/f'']"

definition export :: "state \<Rightarrow> ref \<Rightarrow> jsstring \<Rightarrow> state option" where
  "export s this file = runCommand s this (js ''EXPORT'') [file, js ''/y'']"

text \<open>
  The success callbacks of \<open>deleteValue\<close> and \<open>setValue\<close> return \<open>true\<close> when there
  is no memoized promise, and otherwise the promise that \<open>then\<close> derives from it.
\<close>

definition update_items :: "state \<Rightarrow> ref \<Rightarrow> reaction \<Rightarrow> result \<times> state" where
  "update_items s this r =
     (case items (heap s this) of
        None \<Rightarrow> (Resolves True, s)
      | Some p \<Rightarrow>
          (case promises s p of
             Pending rs \<Rightarrow> (Awaits p, then_react s p r)
           | Fulfilled x \<Rightarrow> (Resolves True, then_react s p r)
           | Rejected e \<Rightarrow> (Rejects e, then_react s p r)))"

definition deleteValue :: "state \<Rightarrow> ref \<Rightarrow> jsstring \<Rightarrow> state option" where
  "deleteValue s this key = runCommand s this (js ''DELETE'') (argName key @ [js ''/f''])"

definition deleteValue_settled :: "state \<Rightarrow> ref \<Rightarrow> jsstring \<Rightarrow> proc \<Rightarrow> result \<times> state" where
  "deleteValue_settled s this key outcome =
     (case outcome of
        Close _ \<Rightarrow> update_items s this (Remove key)
      | Reject _ \<Rightarrow> (Resolves False, s))"

definition setValue :: "state \<Rightarrow> ref \<Rightarrow> jsstring \<Rightarrow> Data \<Rightarrow> state option" where
  "setValue s this key v = runCommand s this (js ''ADD'') (argName key @ argData v @ [js ''/f''])"

definition setValue_settled :: "state \<Rightarrow> ref \<Rightarrow> jsstring \<Rightarrow> Data \<Rightarrow> proc \<Rightarrow> result \<times> state" where
  "setValue_settled s this key v outcome =
     (case outcome of
        Close _ \<Rightarrow> update_items s this (Store key v)
      | Reject _ \<Rightarrow> (Resolves False, s))"

subsection \<open>Resolving a path\<close>

datatype js_error = Error string

definition split_host :: "jsstring \<Rightarrow> jsstring \<times> jsstring" where
  "split_host key =
     (if startsWith key [92, 92]
      then (substring key 2 (indexOf key [92] 2), substring_from key (indexOf key [92] 2 + 1))
      else ([], key))"

definition hive_end :: "jsstring \<Rightarrow> int" where
  "hive_end key = (if indexOf key [92] 0 = - 1 then int (length key) else indexOf key [92] 0)"

definition root_for :: "state \<Rightarrow> jsstring option \<Rightarrow> jsstring \<Rightarrow> ref \<times> state" where
  "root_for s view host =
     (case (if view = Some (js ''32'') then hosts32 s else hosts64 s) host of
        Some p \<Rightarrow> (p, s)
      | None \<Rightarrow>
          (case new_KeyImp s host None of
             (p, s') \<Rightarrow>
               (p, if view = Some (js ''32'') then s'\<lparr>hosts32 := (hosts32 s')(host := Some p)\<rparr>
                   else s'\<lparr>hosts64 := (hosts64 s')(host := Some p)\<rparr>)))"

definition getRawKey :: "state \<Rightarrow> jsstring \<Rightarrow> jsstring option \<Rightarrow> js_error + ref \<times> state" where
  "getRawKey s key0 view =
     (case split_host key0 of (host, key1) \<Rightarrow>
        (let i = hive_end key1;
             long_index = array_indexOf HIVES_LONG (substring key1 0 i);
             short_index = array_indexOf HIVES_SHORT (substring key1 0 i);
             hive_index = (if long_index = - 1 then short_index else long_index);
             key = (if long_index = - 1 then HIVES_LONG ! nat short_index @ substring_from key1 i
                    else key1)
         in if long_index = - 1 \<and> short_index = - 1 then Inl (Error ''illegal hive specified.'')
            else if host \<noteq> [] \<and> 2 \<le> hive_index
              then Inl (Error ''For remote access the root key must be HKLM or HKU'')
            else if \<not> test KEY_PATTERN key then Inl (Error ''illegal key specified.'')
            else if truthy view \<and> view \<noteq> Some (js ''32'') \<and> view \<noteq> Some (js ''64'')
              then Inl (Error ''illegal view specified (use 32 or 64)'')
            else (case root_for s view host of (p, s1) \<Rightarrow> Inr (subkey s1 p key))))"

subsection \<open>Import\<close>

text \<open>
  \<open>importreg\<close> starts the import; \<open>dirty\<close> is \<open>None\<close> when the argument is left out.
  An element of \<open>dirty\<close> without a parent makes the callback throw a TypeError at
  \<open>parent._keys\<close>.  \<open>set_add\<close> is \<open>Set.prototype.add\<close> on the elements in their
  insertion order.
\<close>

definition set_add :: "ref list \<Rightarrow> ref \<Rightarrow> ref list" where
  "set_add ps p = (if p \<in> set ps then ps else ps @ [p])"

definition detach_step :: "state \<times> (exn + ref list) \<Rightarrow> ref \<Rightarrow> state \<times> (exn + ref list)" where
  "detach_step acc i =
     (case acc of
        (s, Inl e) \<Rightarrow> (s, Inl e)
      | (s, Inr parents) \<Rightarrow>
          (case parent (heap s i) of
             None \<Rightarrow> (s, Inl TypeError)
           | Some q \<Rightarrow> (set_keys s q (name (heap s i)) None, Inr (set_add parents q))))"

fun reread_all :: "state \<Rightarrow> ref list \<Rightarrow> state option" where
  "reread_all s [] = Some s"
| "reread_all s (p # ps) =
     (case reread s p of None \<Rightarrow> None | Some (_, s') \<Rightarrow> reread_all s' ps)"

definition importreg :: "state \<Rightarrow> jsstring \<Rightarrow> jsstring option \<Rightarrow> state" where
  "importreg s file view =
     s\<lparr>spawned := spawned s @
       [[js ''IMPORT'', file] @ (case view of Some v \<Rightarrow> if v \<noteq> [] then [js ''/reg:'' @ v] else [] | None \<Rightarrow> [])]\<rparr>"

definition importreg_settled ::
  "state \<Rightarrow> jsstring option \<Rightarrow> ref list option \<Rightarrow> proc \<Rightarrow> (result \<times> state) option" where
  "importreg_settled s view dirty outcome =
     (case outcome of
        Reject _ \<Rightarrow> Some (Resolves False, s)
      | Close _ \<Rightarrow>
          (case dirty of
             Some ds \<Rightarrow>
               (case foldl detach_step (s, Inr []) ds of
                  (s1, Inl e) \<Rightarrow> Some (Rejects (Thrown e), s1)
                | (s1, Inr parents) \<Rightarrow>
                    (case reread_all s1 parents of
                       None \<Rightarrow> None
                     | Some s2 \<Rightarrow> Some (Resolves True, s2)))
           | None \<Rightarrow>
               Some (Resolves True,
                     if view = Some (js ''32'') then s\<lparr>hosts32 := (\<lambda>_. None)\<rparr>
                     else s\<lparr>hosts64 := (\<lambda>_. None)\<rparr>)))"

subsection \<open>Reachable states\<close>

text \<open>
  The states the operations reach from the empty cache, one rule for every call and every
  callback.  The callback of a read throws when a parser does (\<open>BigInt\<close> on the payload
  of a \<open>REG_QWORD\<close> line); \<open>reread_completes\<close> says that it does not.
  \<open>reached c s\<close>: the operations reach the state \<open>s\<close>, where for \<open>c = True\<close> a
  callback of a read is a step only if it runs to completion.  So \<open>reachable\<close> holds
  of all the states the operations reach, a callback of a read throwing or not, and
  \<open>reachable_completed\<close> of those that are reached without a callback of a read that
  threw.
\<close>

definition reread_completes :: "(jsstring \<Rightarrow> number) \<Rightarrow> state \<Rightarrow> ref \<Rightarrow> proc \<Rightarrow> bool" where
  "reread_completes ToNumber s this outcome =
     (case outcome of
        Reject _ \<Rightarrow> True
      | Close stdout \<Rightarrow>
          (case snd (reread_lines ToNumber s this stdout) of Inl _ \<Rightarrow> False | Inr _ \<Rightarrow> True))"

inductive reached :: "bool \<Rightarrow> state \<Rightarrow> bool" where
  r_init: "reached c init_state"
| r_getRawKey: "reached c s \<Longrightarrow> getRawKey s key view = Inr (n, s') \<Longrightarrow> reached c s'"
| r_subkey: "reached c s \<Longrightarrow> this < fresh s \<Longrightarrow> subkey s this key = (n, s') \<Longrightarrow> reached c s'"
| r_reread: "reached c s \<Longrightarrow> this < fresh s \<Longrightarrow> reread s this = Some (p, s') \<Longrightarrow> reached c s'"
| r_reread_settled:
    "reached c s \<Longrightarrow> this < fresh s \<Longrightarrow> (c \<longrightarrow> reread_completes ToNumber s this outcome) \<Longrightarrow>
     reread_settled ToNumber s this p outcome = Some s' \<Longrightarrow> reached c s'"
| r_read: "reached c s \<Longrightarrow> this < fresh s \<Longrightarrow> read s this = Some (p, s') \<Longrightarrow> reached c s'"
| r_exists: "reached c s \<Longrightarrow> this < fresh s \<Longrightarrow> exists_call s this = Some (a, s') \<Longrightarrow> reached c s'"
| r_clear: "reached c s \<Longrightarrow> this < fresh s \<Longrightarrow> clear s this = Some s' \<Longrightarrow> reached c s'"
| r_clear_settled:
    "reached c s \<Longrightarrow> this < fresh s \<Longrightarrow> clear_settled s this outcome = (b, s') \<Longrightarrow> reached c s'"
| r_destroy: "reached c s \<Longrightarrow> this < fresh s \<Longrightarrow> destroy s this = Some s' \<Longrightarrow> reached c s'"
| r_destroy_settled:
    "reached c s \<Longrightarrow> this < fresh s \<Longrightarrow> destroy_settled s this outcome = (b, s') \<Longrightarrow> reached c s'"
| r_create: "reached c s \<Longrightarrow> this < fresh s \<Longrightarrow> create s this = Some s' \<Longrightarrow> reached c s'"
| r_export: "reached c s \<Longrightarrow> this < fresh s \<Longrightarrow> export s this file = Some s' \<Longrightarrow> reached c s'"
| r_deleteValue:
    "reached c s \<Longrightarrow> this < fresh s \<Longrightarrow> deleteValue s this key = Some s' \<Longrightarrow> reached c s'"
| r_deleteValue_settled:
    "reached c s \<Longrightarrow> this < fresh s \<Longrightarrow> deleteValue_settled s this key outcome = (b, s') \<Longrightarrow>
     reached c s'"
| r_setValue:
    "reached c s \<Longrightarrow> this < fresh s \<Longrightarrow> setValue s this key v = Some s' \<Longrightarrow> reached c s'"
| r_setValue_settled:
    "reached c s \<Longrightarrow> this < fresh s \<Longrightarrow> setValue_settled s this key v outcome = (b, s') \<Longrightarrow>
     reached c s'"
| r_importreg: "reached c s \<Longrightarrow> reached c (importreg s file view)"
| r_importreg_settled:
    "reached c s \<Longrightarrow> (case dirty of None \<Rightarrow> True | Some ds \<Rightarrow> list_all (\<lambda>d. d < fresh s) ds) \<Longrightarrow>
     importreg_settled s view dirty outcome = Some (b, s') \<Longrightarrow> reached c s'"

abbreviation reachable :: "state \<Rightarrow> bool" where
  "reachable \<equiv> reached False"

abbreviation reachable_completed :: "state \<Rightarrow> bool" where
  "reachable_completed \<equiv> reached True"

text \<open>
  The shape of the heap: a parent was created before its child; an entry of a child
  mapping is a child of that name; a root of either partition has no parent and is
  entered under its name, and no object is a root of both partitions.  \<open>found_inv\<close>:
  the parent of a confirmed key is confirmed unless it is a root.  \<open>roots_unfound\<close>:
  an object without a parent is not confirmed.  \<open>ancestor h a n\<close>: \<open>a\<close> is on the
  parent chain of \<open>n\<close>.
\<close>

definition wf_state :: "state \<Rightarrow> bool" where
  "wf_state s \<longleftrightarrow>
     (\<forall>r q. r < fresh s \<longrightarrow> parent (heap s r) = Some q \<longrightarrow> q < r) \<and>
     (\<forall>r k c. r < fresh s \<longrightarrow> keys (heap s r) k = Some c \<longrightarrow>
        c < fresh s \<and> parent (heap s c) = Some r \<and> name (heap s c) = k) \<and>
     (\<forall>h r. hosts32 s h = Some r \<longrightarrow> r < fresh s \<and> parent (heap s r) = None \<and> name (heap s r) = h) \<and>
     (\<forall>h r. hosts64 s h = Some r \<longrightarrow>
        r < fresh s \<and> parent (heap s r) = None \<and> name (heap s r) = h \<and> hosts32 s h \<noteq> Some r)"

definition found_inv :: "state \<Rightarrow> bool" where
  "found_inv s \<longleftrightarrow>
     (\<forall>r q. r < fresh s \<longrightarrow> found (heap s r) \<longrightarrow> parent (heap s r) = Some q \<longrightarrow>
        parent (heap s q) \<noteq> None \<longrightarrow> found (heap s q))"

definition roots_unfound :: "state \<Rightarrow> bool" where
  "roots_unfound s \<longleftrightarrow> (\<forall>r. found (heap s r) \<longrightarrow> parent (heap s r) \<noteq> None)"

inductive ancestor :: "(ref \<Rightarrow> KeyImp) \<Rightarrow> ref \<Rightarrow> ref \<Rightarrow> bool" where
  a_parent: "parent (h n) = Some a \<Longrightarrow> ancestor h a n"
| a_step: "parent (h n) = Some q \<Longrightarrow> ancestor h a q \<Longrightarrow> ancestor h a n"

subsection \<open>Predicates and abbreviations of the proofs\<close>

text \<open>
  \<open>same_tree\<close>: two states have the same objects, names, parents, child mappings,
  flags and roots.  \<open>found_inv_except s t\<close> is \<open>found_inv\<close> but for the children of
  \<open>t\<close>, as it holds while the lines of a read of \<open>t\<close> are processed.  \<open>add_child\<close>
  and \<open>add_root\<close> are the states after \<open>new KeyImp\<close> and the assignment of the new
  object to its place.  \<open>tree_inv c\<close> is what every state of \<open>reached c\<close> satisfies,
  and \<open>line_inv c this\<close> what holds while the lines of a read of \<open>this\<close> are processed.
\<close>

definition same_tree :: "state \<Rightarrow> state \<Rightarrow> bool" where
  "same_tree s s' \<longleftrightarrow>
     fresh s' = fresh s \<and> hosts32 s' = hosts32 s \<and> hosts64 s' = hosts64 s \<and>
     (\<forall>r. name (heap s' r) = name (heap s r) \<and> parent (heap s' r) = parent (heap s r) \<and>
          keys (heap s' r) = keys (heap s r) \<and> found (heap s' r) = found (heap s r))"

definition found_inv_except :: "state \<Rightarrow> ref \<Rightarrow> bool" where
  "found_inv_except s t \<longleftrightarrow>
     (\<forall>r q. r < fresh s \<longrightarrow> found (heap s r) \<longrightarrow> parent (heap s r) = Some q \<longrightarrow>
        parent (heap s q) \<noteq> None \<longrightarrow> q \<noteq> t \<longrightarrow> found (heap s q))"

definition add_child :: "state \<Rightarrow> ref \<Rightarrow> jsstring \<Rightarrow> state" where
  "add_child s p i = set_keys (snd (new_KeyImp s i (Some p))) p i (Some (fresh s))"

definition line_inv :: "bool \<Rightarrow> ref \<Rightarrow> state \<Rightarrow> bool" where
  "line_inv c this s \<longleftrightarrow>
     wf_state s \<and> roots_unfound s \<and> (c \<longrightarrow> found_inv_except s this) \<and> this < fresh s"

definition parents_kept :: "state \<Rightarrow> state \<Rightarrow> bool" where
  "parents_kept s s' \<longleftrightarrow> fresh s \<le> fresh s' \<and> (\<forall>r<fresh s. parent (heap s' r) = parent (heap s r))"

definition tree_inv :: "bool \<Rightarrow> state \<Rightarrow> bool" where
  "tree_inv c s \<longleftrightarrow> wf_state s \<and> roots_unfound s \<and> (c \<longrightarrow> found_inv s)"

definition add_root :: "state \<Rightarrow> bool \<Rightarrow> jsstring \<Rightarrow> state" where
  "add_root s v32 host =
     (if v32 then (snd (new_KeyImp s host None))\<lparr>hosts32 := (hosts32 s)(host := Some (fresh s))\<rparr>
      else (snd (new_KeyImp s host None))\<lparr>hosts64 := (hosts64 s)(host := Some (fresh s))\<rparr>)"

subsection \<open>Example states\<close>

text \<open>
  The local key \<open>HKLM\<close> resolved in the empty cache (the root is object 0, the key
  object 1), the state after \<open>reread\<close> was called on it, and the states after the
  QUERY command has ended: with one line for a subkey \<open>Foo\<close>, with a \<open>REG_QWORD\<close> line
  that \<open>BigInt\<close> rejects after it, or with an error.
\<close>

definition hklm :: "ref \<times> state" where
  "hklm = (case getRawKey init_state (js ''HKLM'') None of Inr ns \<Rightarrow> ns | Inl _ \<Rightarrow> (0, init_state))"

definition hklm_query :: "pid \<times> state" where
  "hklm_query = (case reread (snd hklm) (fst hklm) of Some ps \<Rightarrow> ps | None \<Rightarrow> (0, snd hklm))"

definition hklm_settled :: "proc \<Rightarrow> state" where
  "hklm_settled outcome =
     (case reread_settled (\<lambda>_. NaN) (snd hklm_query) (fst hklm) (fst hklm_query) outcome of
        Some s \<Rightarrow> s
      | None \<Rightarrow> snd hklm_query)"

definition foo_line :: jsstring where
  "foo_line = js ''HKEY_LOCAL_MACHINE'' @ [92] @ js ''Foo''"

definition bad_qword_lines :: jsstring where
  "bad_qword_lines = js ''HKEY_LOCAL_MACHINE'' @ [92] @ js ''Foo'' @ [10] @ js ''x REG_QWORD zz''"

definition access_denied :: RegError where
  "access_denied = RegError (js ''Access is denied.'') 1"

text \<open>
  Three keys under \<open>HKLM\<close>: \<open>siblings\<close> is the state after \<open>HKLM\A\<close>, \<open>HKLM\B\<close> and
  \<open>HKLM\C\<close> were resolved in the empty cache, in this order (the root is object 0,
  \<open>HKEY_LOCAL_MACHINE\<close> object 1, and the keys are objects 2, 3 and 4).  \<open>stale\<close> is
  the state after \<open>destroy\<close> has then succeeded on \<open>A\<close> (object 2) and \<open>HKLM\A\<close> was
  resolved again: the parent holds a new object 5 under the name \<open>A\<close>, and object 2,
  which a caller may still hold, has the same parent and name.  \<open>stale_destroyed\<close> and
  \<open>stale_imported\<close> are the states after \<open>destroy\<close> has succeeded on the old object 2
  once more, and after \<open>importreg\<close> with the list of object 2 alone has succeeded.
\<close>

definition path_A :: jsstring where
  "path_A = js ''HKLM'' @ [92] @ js ''A''"

definition path_B :: jsstring where
  "path_B = js ''HKLM'' @ [92] @ js ''B''"

definition path_C :: jsstring where
  "path_C = js ''HKLM'' @ [92] @ js ''C''"

definition resolved :: "state \<Rightarrow> jsstring \<Rightarrow> state" where
  "resolved s key = (case getRawKey s key None of Inr (n, s') \<Rightarrow> s' | Inl _ \<Rightarrow> s)"

definition siblings :: state where
  "siblings = resolved (resolved (resolved init_state path_A) path_B) path_C"

definition stale :: state where
  "stale = resolved (snd (destroy_settled siblings 2 (Close []))) path_A"

definition stale_destroyed :: state where
  "stale_destroyed = snd (destroy_settled stale 2 (Close []))"

definition stale_imported :: state where
  "stale_imported =
     (case importreg_settled stale None (Some [2]) (Close []) of
        Some (b, s') \<Rightarrow> s'
      | None \<Rightarrow> stale)"

subsection \<open>Roots and targeted invalidation\<close>

text \<open>
  \<open>root_of h n r\<close>: the parent chain of \<open>n\<close> ends at \<open>r\<close>.  \<open>rooted\<close> is what
  the loop of \<open>subkey\<close> keeps when it starts at a root of the 64-bit partition.

  For \<open>importreg\<close> with a list \<open>ds\<close> of keys: \<open>detached s ds r k\<close> says that a key of
  \<open>ds\<close> has parent \<open>r\<close> and name \<open>k\<close>; \<open>detach_all\<close> is the state after the first
  loop; \<open>parents_of\<close> is the set of parents in its insertion order; \<open>query_command\<close>
  is the argument list of the QUERY command that \<open>runCommand\<close> starts for a key, and
  \<open>reread_state\<close> the state after \<open>reread\<close> was called on it; a key is \<open>attached\<close>
  when its parent has it in its child mapping under its name.
\<close>

definition root_of :: "(ref \<Rightarrow> KeyImp) \<Rightarrow> ref \<Rightarrow> ref \<Rightarrow> bool" where
  "root_of h n r \<longleftrightarrow> (r = n \<or> ancestor h r n) \<and> parent (h r) = None"

definition rooted :: "ref \<Rightarrow> jsstring \<Rightarrow> (jsstring \<Rightarrow> ref option) \<Rightarrow> ref \<times> state \<Rightarrow> bool" where
  "rooted p host h32 ps \<longleftrightarrow>
     wf_state (snd ps) \<and> fst ps < fresh (snd ps) \<and> p < fresh (snd ps) \<and>
     root_of (heap (snd ps)) (fst ps) p \<and> hosts32 (snd ps) = h32 \<and> hosts64 (snd ps) host = Some p"

definition detached :: "state \<Rightarrow> ref list \<Rightarrow> ref \<Rightarrow> jsstring \<Rightarrow> bool" where
  "detached s ds r k \<longleftrightarrow> list_ex (\<lambda>d. parent (heap s d) = Some r \<and> name (heap s d) = k) ds"

definition detach_all :: "state \<Rightarrow> ref list \<Rightarrow> state" where
  "detach_all s ds =
     s\<lparr>heap := (\<lambda>r. (heap s r)\<lparr>keys := (\<lambda>k. if detached s ds r k then None else keys (heap s r) k)\<rparr>)\<rparr>"

definition parents_of :: "state \<Rightarrow> ref list \<Rightarrow> ref list" where
  "parents_of s ds = foldl set_add [] (List.map_filter (\<lambda>d. parent (heap s d)) ds)"

definition query_command :: "state \<Rightarrow> ref \<Rightarrow> jsstring list" where
  "query_command s q =
     (case getRootAndPath s q of
        Some (root, fullpath) \<Rightarrow> [js ''QUERY'', quoted fullpath, js ''/reg:'' @ view_of_root s root]
      | None \<Rightarrow> [])"

definition reread_state :: "state \<Rightarrow> ref \<Rightarrow> state" where
  "reread_state s q =
     s\<lparr>spawned := spawned s @ [query_command s q],
       promises := (promises s)(npromises s := Pending []),
       npromises := Suc (npromises s),
       heap := (heap s)(q := (heap s q)\<lparr>items := Some (npromises s)\<rparr>)\<rparr>"

definition attached :: "state \<Rightarrow> ref \<Rightarrow> bool" where
  "attached s d =
     (case parent (heap s d) of
        None \<Rightarrow> False
      | Some q \<Rightarrow> keys (heap s q) (name (heap s d)) = Some d)"

section \<open>Properties of the value codec\<close>

subsection \<open>Encodings of strings\<close>

lemma length_le_bytes [simp]: "length (le_bytes n v) = n"
  by (induction n arbitrary: v) auto

lemma length_u16_bytes [simp]: "length (u16_bytes a) = 2 * length a"
  by (induction a) (auto simp: u16_bytes_def)

lemma u16_bytes_append [simp]: "u16_bytes (a @ b) = u16_bytes a @ u16_bytes b"
  by (simp add: u16_bytes_def)

lemma u16_bytes_Nil [simp]: "u16_bytes [] = []"
  by (simp add: u16_bytes_def)

lemma u16_bytes_Cons: "u16_bytes (c # cs) = le_bytes 2 (unat c) @ u16_bytes cs"
  by (simp add: u16_bytes_def)

lemma u16_bytes_zero: "u16_bytes [0] = [0, 0]"
  by (simp add: u16_bytes_def numeral_2_eq_2)

lemma u16_bytes_replicate_zero: "u16_bytes (replicate n 0) = replicate (2 * n) 0"
  by (induction n) (auto simp: u16_bytes_Cons numeral_2_eq_2)

lemma u16_write_eq:
  "acc + length cs \<le> length a \<Longrightarrow>
   u16_write a acc cs = take acc a @ cs @ drop (acc + length cs) a"
proof (induction cs arbitrary: a acc)
  case Nil
  then show ?case by simp
next
  case (Cons c cs)
  then have "u16_write (a[acc := c]) (Suc acc) cs =
      take (Suc acc) (a[acc := c]) @ cs @ drop (Suc acc + length cs) (a[acc := c])"
    by (intro Cons.IH) simp
  moreover have "take (Suc acc) (a[acc := c]) = take acc a @ [c]"
    using Cons.prems by (simp add: take_Suc_conv_app_nth)
  ultimately show ?case by simp
qed

lemma write_bytes_length [simp]:
  "off + length bs \<le> length buf \<Longrightarrow> length (write_bytes buf off bs) = length buf"
  by (simp add: write_bytes_def)

lemma string_to_bytes_loop_eq:
  "off + 2 * length cs \<le> length buf \<Longrightarrow>
   string_to_bytes_loop buf off cs =
     Inr (take off buf @ u16_bytes cs @ drop (off + 2 * length cs) buf)"
proof (induction cs arbitrary: buf off)
  case Nil
  then show ?case by simp
next
  case (Cons c cs)
  let ?b = "write_bytes buf off (le_bytes 2 (unat c))"
  have fit: "off + 2 \<le> length buf" using Cons.prems by simp
  have len: "length ?b = length buf" using fit by simp
  have step: "string_to_bytes_loop buf off (c # cs) = string_to_bytes_loop ?b (off + 2) cs"
    using fit by (simp add: dv_set_def uint_bytes_def)
  have ih: "string_to_bytes_loop ?b (off + 2) cs =
      Inr (take (off + 2) ?b @ u16_bytes cs @ drop (off + 2 + 2 * length cs) ?b)"
    using Cons.prems len by (intro Cons.IH) simp
  have t: "take (off + 2) ?b = take off buf @ le_bytes 2 (unat c)"
    using fit by (simp add: write_bytes_def)
  have d: "drop (off + 2 + 2 * length cs) ?b = drop (off + 2 * length (c # cs)) buf"
    using fit by (simp add: write_bytes_def ac_simps)
  show ?case
    unfolding step ih t d by (simp add: u16_bytes_Cons)
qed

lemma string_to_bytes_eq:
  assumes "offset + 2 * (length v + 1) \<le> length buffer"
  shows "string_to_bytes buffer offset v =
     Inr (take offset buffer @ u16_bytes (v @ [0]) @ drop (offset + 2 * (length v + 1)) buffer,
          offset + 2 * (length v + 1))"
proof -
  let ?b = "take offset buffer @ u16_bytes v @ drop (offset + 2 * length v) buffer"
  have l: "string_to_bytes_loop buffer offset v = Inr ?b"
    using assms by (intro string_to_bytes_loop_eq) simp
  have len: "length ?b = length buffer" using assms by simp
  have w: "write_bytes ?b (offset + length v * 2) (le_bytes 2 0) =
      take offset buffer @ u16_bytes (v @ [0]) @ drop (offset + 2 * (length v + 1)) buffer"
    using assms by (simp add: write_bytes_def u16_bytes_zero numeral_2_eq_2 mult.commute add.assoc)
  show ?thesis
    using assms l len w by (simp add: string_to_bytes_def dv_set_def uint_bytes_def mult.commute)
qed


lemma enc16_simps [simp]: "enc16 [] = []" "enc16 (x # xs) = x @ [0] @ enc16 xs"
  by (simp_all add: enc16_def)

lemma foldl_len: "foldl (\<lambda>acc i. acc + length i + 1) k d = k + length (enc16 d)"
  by (induction d arbitrary: k) auto

lemma multi_raw_fold:
  "acc + length (enc16 d) \<le> length a \<Longrightarrow>
   foldl multi_raw_step (a, acc) d =
     (take acc a @ enc16 d @ drop (acc + length (enc16 d)) a, acc + length (enc16 d))"
proof (induction d arbitrary: a acc)
  case Nil
  then show ?case by simp
next
  case (Cons x xs)
  let ?a = "take acc a @ x @ [0] @ drop (acc + length x + 1) a"
  have w: "u16_write a acc x = take acc a @ x @ drop (acc + length x) a"
    using Cons.prems by (intro u16_write_eq) simp
  have u: "(take acc a @ x @ drop (acc + length x) a)[acc + length x := 0] = ?a"
    using Cons.prems by (simp add: list_update_append upd_conv_take_nth_drop)
  have step: "multi_raw_step (a, acc) x = (?a, acc + length x + 1)"
    by (simp add: multi_raw_step_def w u)
  have la: "length ?a = length a" using Cons.prems by simp
  have ih: "foldl multi_raw_step (?a, acc + length x + 1) xs =
      (take (acc + length x + 1) ?a @ enc16 xs @ drop (acc + length x + 1 + length (enc16 xs)) ?a,
       acc + length x + 1 + length (enc16 xs))"
    using Cons.prems la by (intro Cons.IH) simp
  have t: "take (acc + length x + 1) ?a = take acc a @ x @ [0]"
    using Cons.prems by simp
  have d: "drop (acc + length x + 1 + length (enc16 xs)) ?a = drop (acc + length (enc16 (x # xs))) a"
    using Cons.prems by (simp add: ac_simps)
  show ?case
    unfolding foldl_Cons step ih t d by simp
qed

lemma multi_strict_fold:
  "acc + 2 * length (enc16 d) \<le> length buf \<Longrightarrow>
   foldl multi_strict_step (Inr (buf, acc)) d =
     Inr (take acc buf @ u16_bytes (enc16 d) @ drop (acc + 2 * length (enc16 d)) buf,
          acc + 2 * length (enc16 d))"
proof (induction d arbitrary: buf acc)
  case Nil
  then show ?case by simp
next
  case (Cons x xs)
  let ?b = "take acc buf @ u16_bytes (x @ [0]) @ drop (acc + 2 * (length x + 1)) buf"
  have step: "multi_strict_step (Inr (buf, acc)) x = Inr (?b, acc + 2 * (length x + 1))"
    using Cons.prems by (simp add: multi_strict_step_def string_to_bytes_eq)
  have lb: "length ?b = length buf" using Cons.prems by simp
  have ih: "foldl multi_strict_step (Inr (?b, acc + 2 * (length x + 1))) xs =
      Inr (take (acc + 2 * (length x + 1)) ?b @ u16_bytes (enc16 xs) @
             drop (acc + 2 * (length x + 1) + 2 * length (enc16 xs)) ?b,
           acc + 2 * (length x + 1) + 2 * length (enc16 xs))"
    using Cons.prems lb by (intro Cons.IH) simp
  have t: "take (acc + 2 * (length x + 1)) ?b = take acc buf @ u16_bytes (x @ [0])"
    using Cons.prems by simp
  have d: "drop (acc + 2 * (length x + 1) + 2 * length (enc16 xs)) ?b =
      drop (acc + 2 * length (enc16 (x # xs))) buf"
    using Cons.prems by (simp add: ac_simps)
  show ?case
    unfolding foldl_Cons step ih t d by (simp add: u16_bytes_Cons [of 0])
qed

lemma sz_array: "(u16_write (replicate (length v + 1) 0) 0 v)[length v := 0] = v @ [0]"
proof -
  have d: "drop (length v) (replicate (length v + 1) (0::jschar)) = [0]"
    by (simp only: drop_replicate) simp
  have "u16_write (replicate (length v + 1) 0) 0 v = v @ [0]"
    using u16_write_eq [of 0 v "replicate (length v + 1) 0"] d by simp
  then show ?thesis by simp
qed

lemma multi_array:
  "fst (foldl multi_raw_step (replicate (length (enc16 d) + 1) 0, 0) d) = enc16 d @ [0]"
proof -
  have d: "drop (length (enc16 d)) (replicate (length (enc16 d) + 1) (0::jschar)) = [0]"
    by (simp only: drop_replicate) simp
  show ?thesis
    using multi_raw_fold [of 0 d "replicate (length (enc16 d) + 1) 0"] d by simp
qed

lemma raw_SZ_eq: "raw (SZ v) = u16_bytes (v @ [0])"
  unfolding raw.simps sz_array ..

lemma raw_EXPAND_SZ_eq: "raw (EXPAND_SZ v) = u16_bytes (v @ [0])"
  unfolding raw.simps sz_array ..

lemma raw_MULTI_SZ_eq: "raw (MULTI_SZ d) = u16_bytes (enc16 d @ [0])"
  unfolding raw.simps Let_def foldl_len add_0 multi_array ..

lemma strict_EXPAND_SZ:
  "data_to_regstring (EXPAND_SZ d) True = Inr (js ''hex(2):'' @ bytes_to_hex (raw (EXPAND_SZ d)))"
proof -
  have "string_to_bytes (replicate ((length d + 1) * 2) 0) 0 d =
      Inr (u16_bytes (d @ [0]), 2 * (length d + 1))"
    using string_to_bytes_eq [of 0 d "replicate ((length d + 1) * 2) 0"] by simp
  then show ?thesis
    unfolding raw_EXPAND_SZ_eq by simp
qed

lemma strict_MULTI_SZ:
  "data_to_regstring (MULTI_SZ d) True = Inr (js ''hex(7):'' @ bytes_to_hex (raw (MULTI_SZ d)))"
proof -
  let ?n = "length (enc16 d)"
  let ?buf = "replicate ((1 + ?n) * 2) (0::byte)"
  have dr: "drop (2 * ?n) ?buf = [0, 0]"
    by (simp only: drop_replicate) (simp add: numeral_2_eq_2)
  have f: "foldl multi_strict_step (Inr (?buf, 0)) d = Inr (u16_bytes (enc16 d) @ [0, 0], 2 * ?n)"
    using multi_strict_fold [of 0 d ?buf] dr by simp
  have u: "(u16_bytes (enc16 d) @ [0, 0])[2 * ?n := 0, 2 * ?n + 1 := 0] = u16_bytes (enc16 d @ [0])"
    by (simp add: list_update_append u16_bytes_zero)
  show ?thesis
    unfolding raw_MULTI_SZ_eq data_to_regstring.simps Let_def foldl_len f
    using u by simp
qed


subsection \<open>Strict formatting\<close>

lemma strict_QWORD:
  "data_to_regstring (QWORD v) True = Inr (js ''hex(11):'' @ bytes_to_hex (raw (QWORD v)))"
  by (simp add: dv_set_def)

lemma strict_hex_cases:
  "strict_is_hex v \<Longrightarrow> data_to_regstring v True = Inr (spec_strict v)"
proof (cases v)
  case (EXPAND_SZ d)
  then show ?thesis
    by (simp only: strict_EXPAND_SZ spec_strict_def spec_tag.simps) (simp add: js_def)
next
  case (MULTI_SZ d)
  then show ?thesis
    by (simp only: strict_MULTI_SZ spec_strict_def spec_tag.simps) (simp add: js_def)
next
  case (QWORD n)
  then show ?thesis
    by (simp only: strict_QWORD spec_strict_def spec_tag.simps) (simp add: js_def)
qed (simp_all add: spec_strict_def js_def)

text \<open>
  C2, as the code has it: in strict mode the values of the classes \<open>NONE\<close>,
  \<open>EXPAND_SZ\<close>, \<open>BINARY\<close>, \<open>LINK\<close>, \<open>MULTI_SZ\<close>, \<open>RESOURCE_LIST\<close>,
  \<open>FULL_RESOURCE_DESCRIPTOR\<close>, \<open>RESOURCE_REQUIREMENTS_LIST\<close> and \<open>QWORD\<close> are rendered as
  \<open>hex(<tag>):<comma-hex-bytes>\<close> over their raw encoding, with the tags of the
  specification's table (a binary value untagged), and never throw; a \<open>SZ\<close> value is
  rendered as the quoted string and a \<open>DWORD\<close> value as \<open>dword:<hex>\<close> also in strict
  mode; the strict form of \<open>QWORD(255n)\<close> is \<open>hex(11):ff,00,00,00,00,00,00,00\<close>.
\<close>

theorem strict_format_by_class:
  "(strict_is_hex v \<longrightarrow> data_to_regstring v True = Inr (spec_strict v)) \<and>
   data_to_regstring (SZ s) True = Inr (js ''\"'' @ s @ js ''\"'') \<and>
   data_to_regstring (DWORD n) True = Inr (js ''dword:'' @ number_toString16 n) \<and>
   data_to_regstring (QWORD 255) True = Inr (js ''hex(11):ff,00,00,00,00,00,00,00'')"
proof -
  have "data_to_regstring (QWORD 255) True = Inr (js ''hex(11):ff,00,00,00,00,00,00,00'')"
    by code_simp
  then show ?thesis
    by (simp add: strict_hex_cases quoted_def)
qed

theorem strict_format_by_class_witness:
  "strict_is_hex (MULTI_SZ [js ''a'', js ''b'']) \<and>
   data_to_regstring (MULTI_SZ [js ''a'', js ''b'']) True =
     Inr (js ''hex(7):61,00,00,00,62,00,00,00,00,00'')"
proof -
  have "spec_strict (MULTI_SZ [js ''a'', js ''b'']) = js ''hex(7):61,00,00,00,62,00,00,00,00,00''"
    by code_simp
  then show ?thesis
    using strict_format_by_class [of "MULTI_SZ [js ''a'', js ''b'']"] by simp
qed

text \<open>
  C2 as stated fails for a string value: the strict form of \<open>SZ("a")\<close> is the quoted
  string, not \<open>hex(1):61,00,00,00\<close>.
\<close>

theorem strict_format_SZ_counterexample:
  "data_to_regstring (SZ (js ''a'')) True = Inr (js ''\"a\"'') \<and>
   spec_strict (SZ (js ''a'')) = js ''hex(1):61,00,00,00'' \<and>
   data_to_regstring (SZ (js ''a'')) True \<noteq> Inr (spec_strict (SZ (js ''a'')))"
  by code_simp

text \<open>
  The strict form of a \<open>DWORD_BIG_ENDIAN\<close> value: a space follows the colon and the bytes
  are the little-endian ones, the reverse of the raw encoding.
\<close>

lemma strict_DWORD_BIG_ENDIAN_1:
  "data_to_regstring (DWORD_BIG_ENDIAN (Num 1)) True = Inr (js ''hex(5): 01,00,00,00'') \<and>
   raw (DWORD_BIG_ENDIAN (Num 1)) = [0, 0, 0, 1]"
  by code_simp

subsection \<open>Decoding the strict form\<close>

text \<open>
  C1 at \<open>QWORD(255n)\<close>: the strict form is \<open>hex(11):ff,00,00,00,00,00,00,00\<close>, which
  the pattern of \<open>regstring_to_data\<close> does not match (its tag class has no digit but 0),
  so the decoder returns \<open>undefined\<close> instead of the value.
\<close>

theorem strict_roundtrip_QWORD_255:
  "data_to_regstring (QWORD 255) True = Inr (js ''hex(11):ff,00,00,00,00,00,00,00'') \<and>
   regstring_to_data (js ''hex(11):ff,00,00,00,00,00,00,00'') = Inr None \<and>
   roundtrip (QWORD 255) \<noteq> Inr (Some (QWORD 255))"
  by code_simp

text \<open>
  C5 at three inputs: \<open>hex(a):00\<close> decodes to a \<open>NONE\<close> value, not to a
  \<open>RESOURCE_REQUIREMENTS_LIST\<close>, because the tag is parsed with its parentheses and is
  \<open>NaN\<close>; \<open>hex(6):00\<close> is not matched and gives \<open>undefined\<close>; the empty quoted string
  makes the decoder throw a TypeError.
\<close>

theorem regstring_to_data_tag_dispatch_fails:
  "regstring_to_data (js ''hex(a):00'') = Inr (Some (NONE [0])) \<and>
   regstring_to_data (js ''hex(6):00'') = Inr None \<and>
   regstring_to_data (js ''\"\"'') = Inl TypeError"
  by code_simp

section \<open>Properties of the key tree\<close>

subsection \<open>Operations that leave the tree as it is\<close>

lemma same_tree_refl [simp]: "same_tree s s"
  by (simp add: same_tree_def)

lemma same_tree_trans: "same_tree s s1 \<Longrightarrow> same_tree s1 s2 \<Longrightarrow> same_tree s s2"
  by (simp add: same_tree_def)

lemma same_tree_wf: "same_tree s s' \<Longrightarrow> wf_state s \<Longrightarrow> wf_state s'"
  by (simp add: same_tree_def wf_state_def)

lemma same_tree_found_inv: "same_tree s s' \<Longrightarrow> found_inv s \<Longrightarrow> found_inv s'"
  by (simp add: same_tree_def found_inv_def)

lemma same_tree_roots_unfound: "same_tree s s' \<Longrightarrow> roots_unfound s \<Longrightarrow> roots_unfound s'"
  by (simp add: same_tree_def roots_unfound_def)

lemma same_tree_then_react [simp]: "same_tree s (then_react s p r)"
  by (simp add: same_tree_def then_react_def split: promise.splits)

lemma same_tree_resolve [simp]: "same_tree s (resolve s p x)"
  by (simp add: same_tree_def resolve_def split: promise.splits)

lemma same_tree_reject [simp]: "same_tree s (reject s p e)"
  by (simp add: same_tree_def reject_def split: promise.splits)

lemma same_tree_runCommand: "runCommand s this c args = Some s' \<Longrightarrow> same_tree s s'"
  by (auto simp: same_tree_def runCommand_def split: option.splits prod.splits)

lemma same_tree_new_promise [simp]: "same_tree s (snd (new_promise s))"
  by (simp add: same_tree_def new_promise_def)

lemma same_tree_set_items [simp]: "same_tree s (set_items s p v)"
  by (simp add: same_tree_def set_items_def)

lemma same_tree_reread:
  assumes "reread s this = Some (p, s')"
  shows "same_tree s s'"
proof -
  from assms obtain s1 where rc: "runCommand s this (js ''QUERY'') [] = Some s1"
    and s': "s' = set_items (snd (new_promise s1)) this (fst (new_promise s1))"
    by (auto simp: reread_def split: option.splits prod.splits)
  have "same_tree s s1" using rc by (rule same_tree_runCommand)
  moreover have "same_tree s1 s'"
    unfolding s' by (rule same_tree_trans [OF same_tree_new_promise same_tree_set_items])
  ultimately show ?thesis by (rule same_tree_trans)
qed

lemma same_tree_read: "read s this = Some (p, s') \<Longrightarrow> same_tree s s'"
  by (auto simp: read_def dest: same_tree_reread split: option.splits)

lemma same_tree_exists: "exists_call s this = Some (a, s') \<Longrightarrow> same_tree s s'"
  by (auto simp: exists_call_def dest: same_tree_read split: if_splits option.splits)

lemma same_tree_clear: "clear s this = Some s' \<Longrightarrow> same_tree s s'"
  unfolding clear_def
  by (cases "items (heap s this)")
     (auto dest!: same_tree_runCommand intro: same_tree_trans [OF same_tree_then_react])

lemma same_tree_update_items: "update_items s this r = (b, s') \<Longrightarrow> same_tree s s'"
  by (auto simp: update_items_def split: option.splits promise.splits)

lemma same_tree_reread_all: "reread_all s ps = Some s' \<Longrightarrow> same_tree s s'"
proof (induction ps arbitrary: s)
  case Nil
  then show ?case by simp
next
  case (Cons p ps)
  then show ?case
    by (auto split: option.splits dest!: same_tree_reread intro: same_tree_trans)
qed

lemma same_tree_importreg [simp]: "same_tree s (importreg s file view)"
  by (simp add: same_tree_def importreg_def)

lemma wf_parentD: "wf_state s \<Longrightarrow> r < fresh s \<Longrightarrow> parent (heap s r) = Some q \<Longrightarrow> q < r"
  unfolding wf_state_def by blast

lemma wf_keysD:
  "wf_state s \<Longrightarrow> r < fresh s \<Longrightarrow> keys (heap s r) k = Some c \<Longrightarrow>
   c < fresh s \<and> parent (heap s c) = Some r \<and> name (heap s c) = k"
  unfolding wf_state_def by blast

lemma wf_hosts32D:
  "wf_state s \<Longrightarrow> hosts32 s h = Some r \<Longrightarrow>
   r < fresh s \<and> parent (heap s r) = None \<and> name (heap s r) = h"
  unfolding wf_state_def by blast

lemma wf_hosts64D:
  "wf_state s \<Longrightarrow> hosts64 s h = Some r \<Longrightarrow>
   r < fresh s \<and> parent (heap s r) = None \<and> name (heap s r) = h \<and> hosts32 s h \<noteq> Some r"
  unfolding wf_state_def by blast

lemma wf_stateI:
  assumes "\<And>r q. r < fresh s \<Longrightarrow> parent (heap s r) = Some q \<Longrightarrow> q < r"
    and "\<And>r k c. r < fresh s \<Longrightarrow> keys (heap s r) k = Some c \<Longrightarrow>
        c < fresh s \<and> parent (heap s c) = Some r \<and> name (heap s c) = k"
    and "\<And>h r. hosts32 s h = Some r \<Longrightarrow> r < fresh s \<and> parent (heap s r) = None \<and> name (heap s r) = h"
    and "\<And>h r. hosts64 s h = Some r \<Longrightarrow>
        r < fresh s \<and> parent (heap s r) = None \<and> name (heap s r) = h \<and> hosts32 s h \<noteq> Some r"
  shows "wf_state s"
  unfolding wf_state_def using assms by blast

lemma found_inv_imp_except: "found_inv s \<Longrightarrow> found_inv_except s t"
  by (simp add: found_inv_def found_inv_except_def)

lemma same_tree_found_inv_except: "same_tree s s' \<Longrightarrow> found_inv_except s t \<Longrightarrow> found_inv_except s' t"
  by (simp add: same_tree_def found_inv_except_def)

lemma fresh_add_child [simp]: "fresh (add_child s p i) = Suc (fresh s)"
  by (simp add: add_child_def set_keys_def new_KeyImp_def)

lemma hosts_add_child [simp]:
  "hosts32 (add_child s p i) = hosts32 s" "hosts64 (add_child s p i) = hosts64 s"
  by (simp_all add: add_child_def set_keys_def new_KeyImp_def)

lemma add_child_new [simp]:
  "p \<noteq> fresh s \<Longrightarrow> name (heap (add_child s p i) (fresh s)) = i"
  "p \<noteq> fresh s \<Longrightarrow> parent (heap (add_child s p i) (fresh s)) = Some p"
  "p \<noteq> fresh s \<Longrightarrow> keys (heap (add_child s p i) (fresh s)) = (\<lambda>_. None)"
  "p \<noteq> fresh s \<Longrightarrow> found (heap (add_child s p i) (fresh s)) = False"
  by (simp_all add: add_child_def set_keys_def new_KeyImp_def)

lemma add_child_old [simp]:
  "r \<noteq> fresh s \<Longrightarrow> name (heap (add_child s p i) r) = name (heap s r)"
  "r \<noteq> fresh s \<Longrightarrow> parent (heap (add_child s p i) r) = parent (heap s r)"
  "r \<noteq> fresh s \<Longrightarrow> found (heap (add_child s p i) r) = found (heap s r)"
  "r \<noteq> fresh s \<Longrightarrow> items (heap (add_child s p i) r) = items (heap s r)"
  "r \<noteq> fresh s \<Longrightarrow> r \<noteq> p \<Longrightarrow> keys (heap (add_child s p i) r) = keys (heap s r)"
  "p \<noteq> fresh s \<Longrightarrow> keys (heap (add_child s p i) p) = (keys (heap s p))(i := Some (fresh s))"
  by (simp_all add: add_child_def set_keys_def new_KeyImp_def)

lemma wf_add_child:
  assumes wf: "wf_state s" and p: "p < fresh s"
  shows "wf_state (add_child s p i)"
proof (rule wf_stateI)
  fix r q
  assume r: "r < fresh (add_child s p i)" and par: "parent (heap (add_child s p i) r) = Some q"
  show "q < r"
  proof (cases "r = fresh s")
    case True
    with par p show ?thesis by simp
  next
    case False
    with r par wf_parentD [OF wf, of r q] show ?thesis by simp
  qed
next
  fix r k c
  assume r: "r < fresh (add_child s p i)" and k: "keys (heap (add_child s p i) r) k = Some c"
  have rf: "r \<noteq> fresh s" using k p by (cases "r = fresh s") auto
  then have r': "r < fresh s" using r by simp
  show "c < fresh (add_child s p i) \<and> parent (heap (add_child s p i) c) = Some r \<and>
        name (heap (add_child s p i) c) = k"
  proof (cases "r = p \<and> k = i")
    case True
    from True k p have c: "c = fresh s" by simp
    have pf: "p \<noteq> fresh s" using p by simp
    show ?thesis unfolding c using True add_child_new [OF pf, of i] by simp
  next
    case False
    then have old: "keys (heap s r) k = Some c"
      using k rf p by (cases "r = p") (auto split: if_splits)
    from wf_keysD [OF wf r' old] show ?thesis by simp
  qed
next
  fix h r
  assume "hosts32 (add_child s p i) h = Some r"
  with wf_hosts32D [OF wf, of h r] show
    "r < fresh (add_child s p i) \<and> parent (heap (add_child s p i) r) = None \<and>
     name (heap (add_child s p i) r) = h" by simp
next
  fix h r
  assume "hosts64 (add_child s p i) h = Some r"
  with wf_hosts64D [OF wf, of h r] show
    "r < fresh (add_child s p i) \<and> parent (heap (add_child s p i) r) = None \<and>
     name (heap (add_child s p i) r) = h \<and> hosts32 (add_child s p i) h \<noteq> Some r" by simp
qed

lemma found_inv_except_add_child:
  assumes wf: "wf_state s" and p: "p < fresh s" and inv: "found_inv_except s t"
  shows "found_inv_except (add_child s p i) t"
  unfolding found_inv_except_def
proof (intro allI impI)
  fix r q
  assume r: "r < fresh (add_child s p i)" and f: "found (heap (add_child s p i) r)"
    and par: "parent (heap (add_child s p i) r) = Some q"
    and pq: "parent (heap (add_child s p i) q) \<noteq> None" and qt: "q \<noteq> t"
  have rf: "r \<noteq> fresh s" using f p by (cases "r = fresh s") auto
  then have r': "r < fresh s" using r by simp
  have par': "parent (heap s r) = Some q" using par rf by simp
  have "q < r" using wf_parentD [OF wf r' par'] .
  then have qf: "q \<noteq> fresh s" using r' by simp
  have "found (heap s q)"
    using inv r' f par' pq qt rf qf unfolding found_inv_except_def by simp
  then show "found (heap (add_child s p i) q)" using qf by simp
qed

lemma found_inv_add_child:
  assumes wf: "wf_state s" and p: "p < fresh s" and inv: "found_inv s"
  shows "found_inv (add_child s p i)"
  unfolding found_inv_def
proof (intro allI impI)
  fix r q
  assume r: "r < fresh (add_child s p i)" and f: "found (heap (add_child s p i) r)"
    and par: "parent (heap (add_child s p i) r) = Some q"
    and pq: "parent (heap (add_child s p i) q) \<noteq> None"
  have rf: "r \<noteq> fresh s" using f p by (cases "r = fresh s") auto
  then have r': "r < fresh s" using r by simp
  have par': "parent (heap s r) = Some q" using par rf by simp
  have "q < r" using wf_parentD [OF wf r' par'] .
  then have qf: "q \<noteq> fresh s" using r' by simp
  have "found (heap s q)"
    using inv r' f par' pq rf qf unfolding found_inv_def by simp
  then show "found (heap (add_child s p i) q)" using qf by simp
qed

lemma roots_unfound_add_child:
  assumes ru: "roots_unfound s" and p: "p < fresh s"
  shows "roots_unfound (add_child s p i)"
  unfolding roots_unfound_def
proof (intro allI impI)
  fix r
  assume f: "found (heap (add_child s p i) r)"
  have pf: "p \<noteq> fresh s" using p by simp
  have rf: "r \<noteq> fresh s" using f add_child_new(4) [OF pf, of i] by (cases "r = fresh s") auto
  with f have "found (heap s r)" by simp
  with ru have "parent (heap s r) \<noteq> None" unfolding roots_unfound_def by blast
  with rf show "parent (heap (add_child s p i) r) \<noteq> None" by simp
qed

lemma set_found_fields [simp]:
  "fresh (set_found s c) = fresh s"
  "hosts32 (set_found s c) = hosts32 s"
  "hosts64 (set_found s c) = hosts64 s"
  "name (heap (set_found s c) r) = name (heap s r)"
  "parent (heap (set_found s c) r) = parent (heap s r)"
  "keys (heap (set_found s c) r) = keys (heap s r)"
  "found (heap (set_found s c) r) = (r = c \<or> found (heap s r))"
  by (simp_all add: set_found_def)

lemma set_keys_fields [simp]:
  "fresh (set_keys s p k v) = fresh s"
  "hosts32 (set_keys s p k v) = hosts32 s"
  "hosts64 (set_keys s p k v) = hosts64 s"
  "name (heap (set_keys s p k v) r) = name (heap s r)"
  "parent (heap (set_keys s p k v) r) = parent (heap s r)"
  "found (heap (set_keys s p k v) r) = found (heap s r)"
  "keys (heap (set_keys s p k v) r) = (if r = p then (keys (heap s p))(k := v) else keys (heap s r))"
  by (simp_all add: set_keys_def)

lemma wf_set_found: "wf_state s \<Longrightarrow> wf_state (set_found s c)"
  by (simp add: wf_state_def)

lemma roots_unfound_set_found:
  "roots_unfound s \<Longrightarrow> parent (heap s c) \<noteq> None \<Longrightarrow> roots_unfound (set_found s c)"
  by (auto simp: roots_unfound_def)

lemma roots_unfound_set_keys: "roots_unfound s \<Longrightarrow> roots_unfound (set_keys s q k v)"
  by (simp add: roots_unfound_def)

lemma found_inv_except_set_found:
  assumes inv: "found_inv_except s t" and par: "parent (heap s c) = Some t"
  shows "found_inv_except (set_found s c) t"
  unfolding found_inv_except_def
proof (intro allI impI)
  fix r q
  assume r: "r < fresh (set_found s c)" and f: "found (heap (set_found s c) r)"
    and p: "parent (heap (set_found s c) r) = Some q"
    and pq: "parent (heap (set_found s c) q) \<noteq> None" and qt: "q \<noteq> t"
  have rc: "r \<noteq> c" using p par qt by auto
  then have "found (heap s r)" using f by simp
  then have "found (heap s q)"
    using inv r p pq qt unfolding found_inv_except_def by simp
  then show "found (heap (set_found s c) q)" by simp
qed

lemma keys_detach:
  "keys (heap (set_keys s q k None) r) k' = Some c \<Longrightarrow> keys (heap s r) k' = Some c"
  by (cases "r = q") (simp_all split: if_splits)

lemma wf_detach:
  assumes wf: "wf_state s"
  shows "wf_state (set_keys s q k None)"
proof (rule wf_stateI)
  fix r q'
  assume "r < fresh (set_keys s q k None)" "parent (heap (set_keys s q k None) r) = Some q'"
  then show "q' < r" using wf_parentD [OF wf, of r q'] by simp
next
  fix r k' c
  assume r: "r < fresh (set_keys s q k None)" and k: "keys (heap (set_keys s q k None) r) k' = Some c"
  from r have r': "r < fresh s" by simp
  from wf_keysD [OF wf r' keys_detach [OF k]]
  show "c < fresh (set_keys s q k None) \<and> parent (heap (set_keys s q k None) c) = Some r \<and>
        name (heap (set_keys s q k None) c) = k'" by simp
next
  fix h r
  assume "hosts32 (set_keys s q k None) h = Some r"
  with wf_hosts32D [OF wf, of h r]
  show "r < fresh (set_keys s q k None) \<and> parent (heap (set_keys s q k None) r) = None \<and>
        name (heap (set_keys s q k None) r) = h" by simp
next
  fix h r
  assume "hosts64 (set_keys s q k None) h = Some r"
  with wf_hosts64D [OF wf, of h r]
  show "r < fresh (set_keys s q k None) \<and> parent (heap (set_keys s q k None) r) = None \<and>
        name (heap (set_keys s q k None) r) = h \<and> hosts32 (set_keys s q k None) h \<noteq> Some r" by simp
qed

lemma found_inv_detach: "found_inv s \<Longrightarrow> found_inv (set_keys s q k None)"
  by (simp add: found_inv_def)

lemma add_found_key_cases:
  "add_found_key s this key =
     (if key \<noteq> [] \<and> key \<noteq> name (heap s this) then
        (case keys (heap s this) key of
           Some c \<Rightarrow> set_found s c
         | None \<Rightarrow> set_found (add_child s this key) (fresh s))
      else s)"
  by (simp add: add_found_key_def add_child_def new_KeyImp_def split: option.splits)

lemma add_found_key_inv:
  assumes "line_inv c this s"
  shows "line_inv c this (add_found_key s this key)"
proof (cases "key \<noteq> [] \<and> key \<noteq> name (heap s this)")
  case False
  then show ?thesis using assms by (auto simp: add_found_key_cases)
next
  case True
  from assms have wf: "wf_state s" and ru: "roots_unfound s" and t: "this < fresh s"
    and inv: "c \<longrightarrow> found_inv_except s this"
    by (simp_all add: line_inv_def)
  show ?thesis
  proof (cases "keys (heap s this) key")
    case None
    have tf: "this \<noteq> fresh s" using t by simp
    have par: "parent (heap (add_child s this key) (fresh s)) = Some this"
      using tf by simp
    have "wf_state (set_found (add_child s this key) (fresh s))"
      using wf t by (simp add: wf_add_child wf_set_found)
    moreover have "roots_unfound (set_found (add_child s this key) (fresh s))"
      using roots_unfound_add_child [OF ru t, of key] par by (simp add: roots_unfound_set_found)
    moreover have "c \<longrightarrow> found_inv_except (set_found (add_child s this key) (fresh s)) this"
      using found_inv_except_add_child [OF wf t, of this key] inv par
      by (simp add: found_inv_except_set_found)
    ultimately show ?thesis
      using True None t by (simp add: add_found_key_cases line_inv_def)
  next
    case (Some k)
    from wf_keysD [OF wf t Some] have par: "parent (heap s k) = Some this" by simp
    have "wf_state (set_found s k)" using wf by (rule wf_set_found)
    moreover have "roots_unfound (set_found s k)"
      using ru par by (simp add: roots_unfound_set_found)
    moreover have "c \<longrightarrow> found_inv_except (set_found s k) this"
      using inv par by (simp add: found_inv_except_set_found)
    ultimately show ?thesis
      using True Some t by (simp add: add_found_key_cases line_inv_def)
  qed
qed

lemma reread_line_state:
  "fst (reread_line N this acc i) = fst acc \<or>
   (\<exists>key. fst (reread_line N this acc i) = add_found_key (fst acc) this key)"
proof (cases acc)
  case (Pair s e)
  show ?thesis
  proof (cases e)
    case (Inl x)
    with Pair show ?thesis by (simp add: reread_line_def)
  next
    case (Inr v)
    obtain its ln where v: "v = (its, ln)" by (cases v)
    show ?thesis
    proof (cases "trim i = []")
      case True
      with Pair Inr v show ?thesis by (simp add: reread_line_def)
    next
      case False
      show ?thesis
      proof (cases "if ln \<noteq> 0 then exec ITEM_PATTERN (trim i) else None")
        case (Some m)
        have "fst (reread_line N this acc i) = s"
          unfolding reread_line_def Pair Inr v using False Some
          by (simp split: option.splits sum.splits)
        with Pair show ?thesis by simp
      next
        case None
        show ?thesis
        proof (cases "exec PATH_PATTERN (trim i)")
          case n: None
          have "fst (reread_line N this acc i) = s"
            unfolding reread_line_def Pair Inr v using False None n by simp
          with Pair show ?thesis by simp
        next
          case (Some m)
          show ?thesis
          proof (cases "m 2")
            case n: None
            have "fst (reread_line N this acc i) = s"
              unfolding reread_line_def Pair Inr v using False None Some n by simp
            with Pair show ?thesis by simp
          next
            case (Some key)
            have "fst (reread_line N this acc i) = add_found_key s this key"
              unfolding reread_line_def Pair Inr v using False None \<open>exec PATH_PATTERN (trim i) = Some m\<close> Some
              by simp
            with Pair show ?thesis by auto
          qed
        qed
      qed
    qed
  qed
qed

lemma reread_line_inv:
  assumes "line_inv c this (fst acc)"
  shows "line_inv c this (fst (reread_line N this acc i))"
  using reread_line_state [of N this acc i] assms add_found_key_inv [of c this "fst acc"]
  by auto

lemma foldl_reread_line_inv:
  "line_inv c this (fst acc) \<Longrightarrow> line_inv c this (fst (foldl (reread_line N this) acc ls))"
proof (induction ls arbitrary: acc)
  case Nil
  then show ?case by simp
next
  case (Cons a ls)
  have "line_inv c this (fst (reread_line N this acc a))"
    using Cons.prems by (rule reread_line_inv)
  then show ?case by (simp add: Cons.IH)
qed

lemma reread_lines_inv:
  "line_inv c this s \<Longrightarrow> line_inv c this (fst (reread_lines N s this out))"
  by (simp add: reread_lines_def foldl_reread_line_inv)

lemma set_found_heap: "set_found s p = s\<lparr>heap := (heap s)(p := (heap s p)\<lparr>found := True\<rparr>)\<rparr>"
  by (simp add: set_found_def)

lemma found_inv_except_step:
  assumes inv: "found_inv_except s p" and par: "parent (heap s p) = Some q"
  shows "found_inv_except (set_found s p) q"
  unfolding found_inv_except_def
proof (intro allI impI)
  fix r x
  assume r: "r < fresh (set_found s p)" and f: "found (heap (set_found s p) r)"
    and px: "parent (heap (set_found s p) r) = Some x"
    and pp: "parent (heap (set_found s p) x) \<noteq> None" and xq: "x \<noteq> q"
  have rp: "r \<noteq> p" using px par xq by auto
  then have fr: "found (heap s r)" using f by simp
  show "found (heap (set_found s p) x)"
  proof (cases "x = p")
    case True
    then show ?thesis by simp
  next
    case False
    then have "found (heap s x)"
      using inv r fr px pp unfolding found_inv_except_def by simp
    then show ?thesis by simp
  qed
qed

lemma found_inv_except_self:
  assumes "found_inv_except s p" and "found (heap s p) \<or> parent (heap s p) = None"
  shows "found_inv s"
  unfolding found_inv_def
proof (intro allI impI)
  fix r q
  assume "r < fresh s" "found (heap s r)" "parent (heap s r) = Some q" "parent (heap s q) \<noteq> None"
  then show "found (heap s q)"
    using assms unfolding found_inv_except_def by (cases "q = p") auto
qed

lemma mark_found_inv:
  "line_inv c p s \<Longrightarrow>
   \<exists>h'. mark_found (heap s) p = Some h' \<and> tree_inv c (s\<lparr>heap := h'\<rparr>) \<and>
     (\<forall>r. found (heap s r) \<longrightarrow> found (h' r)) \<and> (found (h' p) \<or> parent (heap s p) = None) \<and>
     (\<forall>r. parent (h' r) = parent (heap s r))"
proof (induction p arbitrary: s rule: less_induct)
  case (less p)
  from less.prems have wf: "wf_state s" and ru: "roots_unfound s" and pf: "p < fresh s"
    and inv: "c \<longrightarrow> found_inv_except s p"
    by (simp_all add: line_inv_def)
  show ?case
  proof (cases "found (heap s p) \<or> parent (heap s p) = None")
    case True
    have "c \<longrightarrow> found_inv s" using inv True by (auto intro: found_inv_except_self)
    with wf ru have "tree_inv c s" by (simp add: tree_inv_def)
    moreover have "mark_found (heap s) p = Some (heap s)"
      using True by (subst mark_found.simps) (auto split: option.splits)
    ultimately show ?thesis using True by auto
  next
    case False
    then have nf: "\<not> found (heap s p)" by simp
    from False obtain q where Some: "parent (heap s p) = Some q" by auto
    have qp: "q < p" using wf_parentD [OF wf pf Some] .
    let ?s1 = "set_found s p"
    have "wf_state ?s1" using wf by (rule wf_set_found)
    moreover have "roots_unfound ?s1" using ru Some by (simp add: roots_unfound_set_found)
    moreover have "c \<longrightarrow> found_inv_except ?s1 q" using inv Some by (simp add: found_inv_except_step)
    moreover have "q < fresh ?s1" using qp pf by simp
    ultimately have l1: "line_inv c q ?s1" by (simp add: line_inv_def)
    from less.IH [OF qp l1] obtain h' where
      m: "mark_found (heap ?s1) q = Some h'" and inv': "tree_inv c (?s1\<lparr>heap := h'\<rparr>)"
      and mono: "\<forall>r. found (heap ?s1 r) \<longrightarrow> found (h' r)"
      and pk: "\<forall>r. parent (h' r) = parent (heap ?s1 r)"
      by blast
    have eq: "?s1\<lparr>heap := h'\<rparr> = s\<lparr>heap := h'\<rparr>" by (simp add: set_found_def)
    have step: "mark_found (heap s) p = mark_found (heap ?s1) q"
      using nf Some by (subst mark_found.simps) (simp add: set_found_def)
    have "found (h' p)" using mono by simp
    moreover have "\<forall>r. found (heap s r) \<longrightarrow> found (h' r)" using mono by simp
    moreover have "\<forall>r. parent (h' r) = parent (heap s r)" using pk by simp
    ultimately show ?thesis
      using m inv' unfolding eq step by blast
  qed
qed

lemma wf_heap_update_promises [simp]:
  "wf_state (resolve s p x) = wf_state s" "wf_state (reject s p e) = wf_state s"
  "found_inv (resolve s p x) = found_inv s" "found_inv (reject s p e) = found_inv s"
  "roots_unfound (resolve s p x) = roots_unfound s" "roots_unfound (reject s p e) = roots_unfound s"
  by (auto simp: resolve_def reject_def wf_state_def found_inv_def roots_unfound_def
      split: promise.splits)

lemma tree_inv_update_promises [simp]:
  "tree_inv c (resolve s p x) = tree_inv c s" "tree_inv c (reject s p e) = tree_inv c s"
  by (simp_all add: tree_inv_def)

lemma fresh_update_promises [simp]:
  "fresh (resolve s p x) = fresh s" "fresh (reject s p e) = fresh s"
  by (auto simp: resolve_def reject_def split: promise.splits)

lemma heap_resolve [simp]: "heap (resolve s p x) = heap s" "heap (reject s p e) = heap s"
  by (auto simp: resolve_def reject_def split: promise.splits)

lemma parents_kept_refl [simp]: "parents_kept s s"
  by (simp add: parents_kept_def)

lemma parents_kept_trans: "parents_kept s s1 \<Longrightarrow> parents_kept s1 s2 \<Longrightarrow> parents_kept s s2"
  by (auto simp: parents_kept_def)

lemma parents_kept_add_found_key: "parents_kept s (add_found_key s this key)"
  by (auto simp: parents_kept_def add_found_key_cases split: option.splits)

lemma parents_kept_reread_line: "parents_kept (fst acc) (fst (reread_line N this acc i))"
  using reread_line_state [of N this acc i] parents_kept_add_found_key by auto

lemma parents_kept_foldl:
  "parents_kept (fst acc) (fst (foldl (reread_line N this) acc ls))"
proof (induction ls arbitrary: acc)
  case Nil
  then show ?case by simp
next
  case (Cons a ls)
  show ?case
    using parents_kept_trans [OF parents_kept_reread_line Cons.IH] by simp
qed

lemma parents_kept_reread_lines: "parents_kept s (fst (reread_lines N s this out))"
  using parents_kept_foldl [of "(s, Inr ((\<lambda>_. None), 0))"] by (simp add: reread_lines_def)

lemma reread_settled_inv:
  assumes inv: "tree_inv c s" and t: "this < fresh s"
    and c: "c \<longrightarrow> reread_completes N s this outcome"
  shows "\<exists>s'. reread_settled N s this p outcome = Some s' \<and> tree_inv c s' \<and> this < fresh s' \<and>
          (reread_completes N s this outcome \<longrightarrow>
             (case outcome of
                Close _ \<Rightarrow> found (heap s' this) \<or> parent (heap s this) = None
              | Reject _ \<Rightarrow> True))"
proof (cases outcome)
  case (Reject err)
  then show ?thesis using inv t by (simp add: reread_settled_def)
next
  case (Close out)
  obtain s1 e where rl: "reread_lines N s this out = (s1, e)" by (cases "reread_lines N s this out")
  have "line_inv c this s"
    using inv t by (simp add: line_inv_def tree_inv_def found_inv_imp_except)
  from reread_lines_inv [OF this, of N out] rl have l1: "line_inv c this s1" by simp
  show ?thesis
  proof (cases e)
    case (Inl x)
    with Close rl have nc: "\<not> reread_completes N s this outcome"
      by (simp add: reread_completes_def)
    with c have "\<not> c" by blast
    with l1 have "tree_inv c s1" "this < fresh s1" by (simp_all add: line_inv_def tree_inv_def)
    moreover have "reread_settled N s this p outcome = Some (reject s1 p (Thrown x))"
      using Close rl Inl by (simp add: reread_settled_def)
    ultimately show ?thesis using nc by simp
  next
    case (Inr v)
    obtain its ln where v: "v = (its, ln)" by (cases v)
    from mark_found_inv [OF l1] obtain h' where
      m: "mark_found (heap s1) this = Some h'" and inv': "tree_inv c (s1\<lparr>heap := h'\<rparr>)"
      and f: "found (h' this) \<or> parent (heap s1 this) = None"
      by blast
    have "parent (heap s1 this) = parent (heap s this)"
      using parents_kept_reread_lines [of s N this out] rl t by (simp add: parents_kept_def)
    with f have f': "found (h' this) \<or> parent (heap s this) = None" by simp
    have t': "this < fresh s1" using l1 by (simp add: line_inv_def)
    have "reread_settled N s this p outcome = Some (resolve (s1\<lparr>heap := h'\<rparr>) p its)"
      using Close rl Inr v m by (simp add: reread_settled_def)
    then show ?thesis
      using inv' f' t' Close by simp
  qed
qed

lemma same_tree_inv: "same_tree s s' \<Longrightarrow> tree_inv c s \<Longrightarrow> tree_inv c s'"
  by (auto simp: tree_inv_def dest: same_tree_wf same_tree_found_inv same_tree_roots_unfound)

lemma tree_inv_wf: "tree_inv c s \<Longrightarrow> wf_state s"
  by (simp add: tree_inv_def)

lemma tree_inv_add_child: "tree_inv c s \<Longrightarrow> p < fresh s \<Longrightarrow> tree_inv c (add_child s p i)"
  by (simp add: tree_inv_def wf_add_child found_inv_add_child roots_unfound_add_child)

lemma subkey_step_cases:
  "subkey_step (p, s) i =
     (case keys (heap s p) i of Some c \<Rightarrow> (c, s) | None \<Rightarrow> (fresh s, add_child s p i))"
  by (simp add: subkey_step_def add_child_def new_KeyImp_def split: option.splits)

lemma subkey_step_inv:
  assumes "tree_inv c (snd ps)" "fst ps < fresh (snd ps)"
  shows "tree_inv c (snd (subkey_step ps i)) \<and> fst (subkey_step ps i) < fresh (snd (subkey_step ps i))"
proof (cases ps)
  case (Pair p s)
  with assms have inv: "tree_inv c s" and p: "p < fresh s" by simp_all
  show ?thesis
  proof (cases "keys (heap s p) i")
    case None
    then show ?thesis
      using Pair inv p by (simp add: subkey_step_cases tree_inv_add_child)
  next
    case (Some k)
    then show ?thesis
      using Pair inv p wf_keysD [OF tree_inv_wf [OF inv] p Some] by (simp add: subkey_step_cases)
  qed
qed

lemma foldl_subkey_step_inv:
  "tree_inv c (snd ps) \<Longrightarrow> fst ps < fresh (snd ps) \<Longrightarrow>
   tree_inv c (snd (foldl subkey_step ps ks)) \<and>
   fst (foldl subkey_step ps ks) < fresh (snd (foldl subkey_step ps ks))"
proof (induction ks arbitrary: ps)
  case Nil
  then show ?case by simp
next
  case (Cons k ks)
  from subkey_step_inv [OF Cons.prems, of k] show ?case
    by (simp add: Cons.IH)
qed

lemma subkey_inv:
  "tree_inv c s \<Longrightarrow> this < fresh s \<Longrightarrow> subkey s this key = (n, s') \<Longrightarrow> tree_inv c s' \<and> n < fresh s'"
  using foldl_subkey_step_inv [of c "(this, s)" "split [92] key"] by (simp add: subkey_def)

lemma root_for_cases:
  "root_for s view host =
     (case (if view = Some (js ''32'') then hosts32 s else hosts64 s) host of
        Some p \<Rightarrow> (p, s)
      | None \<Rightarrow> (fresh s, add_root s (view = Some (js ''32'')) host))"
  by (simp add: root_for_def add_root_def new_KeyImp_def split: option.splits)

lemma add_root_fields [simp]:
  "fresh (add_root s v host) = Suc (fresh s)"
  "hosts32 (add_root s v host) = (if v then (hosts32 s)(host := Some (fresh s)) else hosts32 s)"
  "hosts64 (add_root s v host) = (if v then hosts64 s else (hosts64 s)(host := Some (fresh s)))"
  "heap (add_root s v host) =
     (heap s)(fresh s := \<lparr>name = host, parent = None, keys = (\<lambda>_. None), found = False, items = None\<rparr>)"
  by (simp_all add: add_root_def new_KeyImp_def)

lemma wf_add_root:
  assumes wf: "wf_state s"
  shows "wf_state (add_root s v host)"
proof (rule wf_stateI)
  fix r q
  assume "r < fresh (add_root s v host)" "parent (heap (add_root s v host) r) = Some q"
  then show "q < r"
    using wf_parentD [OF wf, of r q] by (cases "r = fresh s") (simp_all add: less_Suc_eq)
next
  fix r k c
  assume r: "r < fresh (add_root s v host)" and k: "keys (heap (add_root s v host) r) k = Some c"
  have rf: "r \<noteq> fresh s" using k by (cases "r = fresh s") auto
  then have r': "r < fresh s" and k': "keys (heap s r) k = Some c" using r k by simp_all
  from wf_keysD [OF wf r' k'] have c: "c < fresh s" "parent (heap s c) = Some r" "name (heap s c) = k"
    by simp_all
  then have "c \<noteq> fresh s" by simp
  then show "c < fresh (add_root s v host) \<and> parent (heap (add_root s v host) c) = Some r \<and>
        name (heap (add_root s v host) c) = k"
    using c by simp
next
  fix h r
  assume a: "hosts32 (add_root s v host) h = Some r"
  show "r < fresh (add_root s v host) \<and> parent (heap (add_root s v host) r) = None \<and>
        name (heap (add_root s v host) r) = h"
  proof (cases "v \<and> h = host")
    case True
    with a show ?thesis by simp
  next
    case False
    with a have "hosts32 s h = Some r" by (auto split: if_splits)
    from wf_hosts32D [OF wf this] show ?thesis by auto
  qed
next
  fix h r
  assume a: "hosts64 (add_root s v host) h = Some r"
  show "r < fresh (add_root s v host) \<and> parent (heap (add_root s v host) r) = None \<and>
        name (heap (add_root s v host) r) = h \<and> hosts32 (add_root s v host) h \<noteq> Some r"
  proof (cases "\<not> v \<and> h = host")
    case True
    with a have r: "r = fresh s" by simp
    have "hosts32 s h \<noteq> Some (fresh s)" using wf_hosts32D [OF wf, of h "fresh s"] by auto
    with True r show ?thesis by simp
  next
    case False
    with a have old: "hosts64 s h = Some r" by (auto split: if_splits)
    from wf_hosts64D [OF wf this] show ?thesis by auto
  qed
qed

lemma found_inv_add_root:
  assumes wf: "wf_state s" and inv: "found_inv s"
  shows "found_inv (add_root s v host)"
  unfolding found_inv_def
proof (intro allI impI)
  fix r q
  assume r: "r < fresh (add_root s v host)" and f: "found (heap (add_root s v host) r)"
    and par: "parent (heap (add_root s v host) r) = Some q"
    and pq: "parent (heap (add_root s v host) q) \<noteq> None"
  have rf: "r \<noteq> fresh s" using f by (cases "r = fresh s") auto
  then have r': "r < fresh s" using r by simp
  have par': "parent (heap s r) = Some q" using par rf by simp
  have "q < r" using wf_parentD [OF wf r' par'] .
  then have qf: "q \<noteq> fresh s" using r' by simp
  have "found (heap s q)"
    using inv r' f par' pq rf qf unfolding found_inv_def by simp
  then show "found (heap (add_root s v host) q)" using qf by simp
qed

lemma roots_unfound_add_root: "roots_unfound s \<Longrightarrow> roots_unfound (add_root s v host)"
  by (simp add: roots_unfound_def)

lemma tree_inv_add_root: "tree_inv c s \<Longrightarrow> tree_inv c (add_root s v host)"
  by (simp add: tree_inv_def wf_add_root found_inv_add_root roots_unfound_add_root)

lemma root_for_inv:
  assumes "tree_inv c s" "root_for s view host = (p, s1)"
  shows "tree_inv c s1 \<and> p < fresh s1"
proof (cases "(if view = Some (js ''32'') then hosts32 s else hosts64 s) host")
  case None
  then show ?thesis
    using assms by (auto simp: root_for_cases tree_inv_add_root)
next
  case (Some r)
  then have "r < fresh s"
    using tree_inv_wf [OF assms(1)] wf_hosts32D [of s host r] wf_hosts64D [of s host r]
    by (auto split: if_splits)
  then show ?thesis using assms Some by (simp add: root_for_cases)
qed

lemma getRawKey_inv:
  assumes "tree_inv c s" "getRawKey s key view = Inr (n, s')"
  shows "tree_inv c s' \<and> n < fresh s'"
proof -
  from assms(2) obtain host key1 p s1 where
    rf: "root_for s view host = (p, s1)" and sk: "subkey s1 p key1 = (n, s')"
    by (auto simp: getRawKey_def Let_def split: prod.splits if_splits)
  from root_for_inv [OF assms(1) rf] have "tree_inv c s1" "p < fresh s1" by simp_all
  from subkey_inv [OF this sk] show ?thesis .
qed

lemma tree_inv_detach: "tree_inv c s \<Longrightarrow> tree_inv c (set_keys s q k None)"
  by (simp add: tree_inv_def wf_detach found_inv_detach roots_unfound_set_keys)

lemma detach_step_state:
  "fst (detach_step acc i) = fst acc \<or> (\<exists>q k. fst (detach_step acc i) = set_keys (fst acc) q k None)"
  by (cases acc) (auto simp: detach_step_def split: sum.splits option.splits)

lemma foldl_detach_inv: "tree_inv c (fst acc) \<Longrightarrow> tree_inv c (fst (foldl detach_step acc ds))"
proof (induction ds arbitrary: acc)
  case Nil
  then show ?case by simp
next
  case (Cons d ds)
  have "tree_inv c (fst (detach_step acc d))"
    using detach_step_state [of acc d] Cons.prems tree_inv_detach [of c "fst acc"] by auto
  then show ?case by (simp add: Cons.IH)
qed

lemma wf_clear_hosts32:
  assumes wf: "wf_state s"
  shows "wf_state (s\<lparr>hosts32 := (\<lambda>_. None)\<rparr>)"
proof (rule wf_stateI)
  fix r q
  assume "r < fresh (s\<lparr>hosts32 := (\<lambda>_. None)\<rparr>)" "parent (heap (s\<lparr>hosts32 := (\<lambda>_. None)\<rparr>) r) = Some q"
  then show "q < r" using wf_parentD [OF wf, of r q] by simp
next
  fix r k c
  assume "r < fresh (s\<lparr>hosts32 := (\<lambda>_. None)\<rparr>)" "keys (heap (s\<lparr>hosts32 := (\<lambda>_. None)\<rparr>) r) k = Some c"
  then show "c < fresh (s\<lparr>hosts32 := (\<lambda>_. None)\<rparr>) \<and>
      parent (heap (s\<lparr>hosts32 := (\<lambda>_. None)\<rparr>) c) = Some r \<and> name (heap (s\<lparr>hosts32 := (\<lambda>_. None)\<rparr>) c) = k"
    using wf_keysD [OF wf, of r k c] by simp
next
  fix h r
  assume "hosts32 (s\<lparr>hosts32 := (\<lambda>_. None)\<rparr>) h = Some r"
  then show "r < fresh (s\<lparr>hosts32 := (\<lambda>_. None)\<rparr>) \<and>
      parent (heap (s\<lparr>hosts32 := (\<lambda>_. None)\<rparr>) r) = None \<and> name (heap (s\<lparr>hosts32 := (\<lambda>_. None)\<rparr>) r) = h"
    by simp
next
  fix h r
  assume "hosts64 (s\<lparr>hosts32 := (\<lambda>_. None)\<rparr>) h = Some r"
  then show "r < fresh (s\<lparr>hosts32 := (\<lambda>_. None)\<rparr>) \<and>
      parent (heap (s\<lparr>hosts32 := (\<lambda>_. None)\<rparr>) r) = None \<and> name (heap (s\<lparr>hosts32 := (\<lambda>_. None)\<rparr>) r) = h \<and>
      hosts32 (s\<lparr>hosts32 := (\<lambda>_. None)\<rparr>) h \<noteq> Some r"
    using wf_hosts64D [OF wf, of h r] by simp
qed

lemma wf_clear_hosts64:
  assumes wf: "wf_state s"
  shows "wf_state (s\<lparr>hosts64 := (\<lambda>_. None)\<rparr>)"
proof (rule wf_stateI)
  fix r q
  assume "r < fresh (s\<lparr>hosts64 := (\<lambda>_. None)\<rparr>)" "parent (heap (s\<lparr>hosts64 := (\<lambda>_. None)\<rparr>) r) = Some q"
  then show "q < r" using wf_parentD [OF wf, of r q] by simp
next
  fix r k c
  assume "r < fresh (s\<lparr>hosts64 := (\<lambda>_. None)\<rparr>)" "keys (heap (s\<lparr>hosts64 := (\<lambda>_. None)\<rparr>) r) k = Some c"
  then show "c < fresh (s\<lparr>hosts64 := (\<lambda>_. None)\<rparr>) \<and>
      parent (heap (s\<lparr>hosts64 := (\<lambda>_. None)\<rparr>) c) = Some r \<and> name (heap (s\<lparr>hosts64 := (\<lambda>_. None)\<rparr>) c) = k"
    using wf_keysD [OF wf, of r k c] by simp
next
  fix h r
  assume "hosts32 (s\<lparr>hosts64 := (\<lambda>_. None)\<rparr>) h = Some r"
  then show "r < fresh (s\<lparr>hosts64 := (\<lambda>_. None)\<rparr>) \<and>
      parent (heap (s\<lparr>hosts64 := (\<lambda>_. None)\<rparr>) r) = None \<and> name (heap (s\<lparr>hosts64 := (\<lambda>_. None)\<rparr>) r) = h"
    using wf_hosts32D [OF wf, of h r] by simp
next
  fix h r
  assume "hosts64 (s\<lparr>hosts64 := (\<lambda>_. None)\<rparr>) h = Some r"
  then show "r < fresh (s\<lparr>hosts64 := (\<lambda>_. None)\<rparr>) \<and>
      parent (heap (s\<lparr>hosts64 := (\<lambda>_. None)\<rparr>) r) = None \<and> name (heap (s\<lparr>hosts64 := (\<lambda>_. None)\<rparr>) r) = h \<and>
      hosts32 (s\<lparr>hosts64 := (\<lambda>_. None)\<rparr>) h \<noteq> Some r"
    by simp
qed

lemma tree_inv_clear_hosts32: "tree_inv c s \<Longrightarrow> tree_inv c (s\<lparr>hosts32 := (\<lambda>_. None)\<rparr>)"
  by (simp add: tree_inv_def wf_clear_hosts32 found_inv_def roots_unfound_def)

lemma tree_inv_clear_hosts64: "tree_inv c s \<Longrightarrow> tree_inv c (s\<lparr>hosts64 := (\<lambda>_. None)\<rparr>)"
  by (simp add: tree_inv_def wf_clear_hosts64 found_inv_def roots_unfound_def)

lemma importreg_settled_inv:
  assumes inv: "tree_inv c s" and r: "importreg_settled s view dirty outcome = Some (b, s')"
  shows "tree_inv c s'"
proof (cases outcome)
  case (Reject e)
  with r have "s' = s" by (simp add: importreg_settled_def)
  with inv show ?thesis by simp
next
  case (Close out)
  show ?thesis
  proof (cases dirty)
    case None
    with r Close have "s' = (if view = Some (js ''32'') then s\<lparr>hosts32 := (\<lambda>_. None)\<rparr>
        else s\<lparr>hosts64 := (\<lambda>_. None)\<rparr>)"
      by (simp add: importreg_settled_def)
    then show ?thesis
      using tree_inv_clear_hosts32 [OF inv] tree_inv_clear_hosts64 [OF inv]
      by (cases "view = Some (js ''32'')") simp_all
  next
    case (Some ds)
    obtain s1 e where f: "foldl detach_step (s, Inr []) ds = (s1, e)"
      by (cases "foldl detach_step (s, Inr []) ds")
    have i1: "tree_inv c s1" using foldl_detach_inv [of c "(s, Inr [])" ds] inv f by simp
    show ?thesis
    proof (cases e)
      case (Inl x)
      with r Close Some f have "s' = s1" by (simp add: importreg_settled_def)
      with i1 show ?thesis by simp
    next
      case (Inr parents)
      with r Close Some f have "reread_all s1 parents = Some s'"
        by (simp add: importreg_settled_def split: option.splits)
      from same_tree_inv [OF same_tree_reread_all [OF this] i1] show ?thesis .
    qed
  qed
qed

lemma destroy_settled_inv:
  assumes inv: "tree_inv c s" and r: "destroy_settled s this outcome = (b, s')"
  shows "tree_inv c s'"
proof (cases outcome)
  case (Reject e)
  with r have "s' = s" by (simp add: destroy_settled_def)
  with inv show ?thesis by simp
next
  case (Close out)
  show ?thesis
  proof (cases "parent (heap s this)")
    case None
    with r Close have "s' = s" by (simp add: destroy_settled_def)
    with inv show ?thesis by simp
  next
    case (Some q)
    with r Close have "s' = set_keys s q (name (heap s this)) None" by (simp add: destroy_settled_def)
    with inv show ?thesis by (simp add: tree_inv_detach)
  qed
qed

lemma update_items_inv: "tree_inv c s \<Longrightarrow> update_items s this r = (b, s') \<Longrightarrow> tree_inv c s'"
  using same_tree_inv [OF same_tree_update_items] .

lemma runCommand_inv: "tree_inv c s \<Longrightarrow> runCommand s this cmd args = Some s' \<Longrightarrow> tree_inv c s'"
  using same_tree_inv [OF same_tree_runCommand] .

lemma tree_inv_init: "tree_inv c init_state"
  by (simp add: tree_inv_def wf_state_def found_inv_def roots_unfound_def init_state_def)

lemma reached_tree_inv: "reached c s \<Longrightarrow> tree_inv c s"
proof (induction rule: reached.induct)
  case (r_init c)
  show ?case by (rule tree_inv_init)
next
  case (r_getRawKey c s key view n s')
  from getRawKey_inv [OF r_getRawKey.IH r_getRawKey.hyps(2)] show ?case by simp
next
  case (r_subkey c s this key n s')
  from subkey_inv [OF r_subkey.IH r_subkey.hyps(2,3)] show ?case by simp
next
  case (r_reread c s this p s')
  from same_tree_inv [OF same_tree_reread [OF r_reread.hyps(3)] r_reread.IH] show ?case .
next
  case (r_reread_settled c s this ToNumber outcome p s')
  from reread_settled_inv [OF r_reread_settled.IH r_reread_settled.hyps(2,3), of p]
    r_reread_settled.hyps(4)
  show ?case by auto
next
  case (r_read c s this p s')
  from same_tree_inv [OF same_tree_read [OF r_read.hyps(3)] r_read.IH] show ?case .
next
  case (r_exists c s this a s')
  from same_tree_inv [OF same_tree_exists [OF r_exists.hyps(3)] r_exists.IH] show ?case .
next
  case (r_clear c s this s')
  from same_tree_inv [OF same_tree_clear [OF r_clear.hyps(3)] r_clear.IH] show ?case .
next
  case (r_clear_settled c s this outcome b s')
  from r_clear_settled.hyps(3) have "s' = s" by (simp add: clear_settled_def split: proc.splits)
  with r_clear_settled.IH show ?case by simp
next
  case (r_destroy c s this s')
  from runCommand_inv [OF r_destroy.IH r_destroy.hyps(3) [unfolded destroy_def]] show ?case .
next
  case (r_destroy_settled c s this outcome b s')
  from destroy_settled_inv [OF r_destroy_settled.IH r_destroy_settled.hyps(3)] show ?case .
next
  case (r_create c s this s')
  from runCommand_inv [OF r_create.IH r_create.hyps(3) [unfolded create_def]] show ?case .
next
  case (r_export c s this fl s')
  from runCommand_inv [OF r_export.IH r_export.hyps(3) [unfolded export_def]] show ?case .
next
  case (r_deleteValue c s this key s')
  from runCommand_inv [OF r_deleteValue.IH r_deleteValue.hyps(3) [unfolded deleteValue_def]] show ?case .
next
  case (r_deleteValue_settled c s this key outcome b s')
  show ?case
  proof (cases outcome)
    case (Close out)
    with r_deleteValue_settled.hyps(3) have "update_items s this (Remove key) = (b, s')"
      by (simp add: deleteValue_settled_def)
    from update_items_inv [OF r_deleteValue_settled.IH this] show ?thesis .
  next
    case (Reject e)
    with r_deleteValue_settled.hyps(3) have "s' = s" by (simp add: deleteValue_settled_def)
    with r_deleteValue_settled.IH show ?thesis by simp
  qed
next
  case (r_setValue c s this key v s')
  from runCommand_inv [OF r_setValue.IH r_setValue.hyps(3) [unfolded setValue_def]] show ?case .
next
  case (r_setValue_settled c s this key v outcome b s')
  show ?case
  proof (cases outcome)
    case (Close out)
    with r_setValue_settled.hyps(3) have "update_items s this (Store key v) = (b, s')"
      by (simp add: setValue_settled_def)
    from update_items_inv [OF r_setValue_settled.IH this] show ?thesis .
  next
    case (Reject e)
    with r_setValue_settled.hyps(3) have "s' = s" by (simp add: setValue_settled_def)
    with r_setValue_settled.IH show ?thesis by simp
  qed
next
  case (r_importreg c s fl view)
  from same_tree_inv [OF same_tree_importreg r_importreg.IH] show ?case .
next
  case (r_importreg_settled c s dirty view outcome b s')
  from importreg_settled_inv [OF r_importreg_settled.IH r_importreg_settled.hyps(3)] show ?case .
qed

lemma reached_mono: "reached c s \<Longrightarrow> reachable s"
  by (induction rule: reached.induct) (auto intro: reached.intros)

lemma ancestor_found:
  assumes inv: "tree_inv True s"
  shows "ancestor (heap s) a n \<Longrightarrow> n < fresh s \<Longrightarrow> found (heap s n) \<Longrightarrow>
         parent (heap s a) \<noteq> None \<Longrightarrow> found (heap s a) \<and> a < fresh s"
proof (induction "heap s" a n rule: ancestor.induct)
  case (a_parent n a)
  from inv have wf: "wf_state s" and fi: "found_inv s" by (simp_all add: tree_inv_def)
  from wf_parentD [OF wf a_parent(2) a_parent(1)] a_parent(2) have "a < fresh s" by simp
  moreover have "found (heap s a)"
    using fi a_parent unfolding found_inv_def by blast
  ultimately show ?case by simp
next
  case (a_step n q a)
  from inv have wf: "wf_state s" and fi: "found_inv s" by (simp_all add: tree_inv_def)
  from wf_parentD [OF wf a_step(4) a_step(1)] a_step(4) have q: "q < fresh s" by simp
  have pq: "parent (heap s q) \<noteq> None"
    using a_step(2) by (cases rule: ancestor.cases) auto
  have "found (heap s q)"
    using fi a_step(1,4,5) pq unfolding found_inv_def by blast
  with a_step(3) q a_step(6) show ?case by simp
qed

subsection \<open>The root of a key\<close>

text \<open>
  In a well-formed heap the parent chain of every key ends at a root, so the loop of
  \<open>getRootAndPath\<close> ends and every command is started.
\<close>

lemma walk_up_ancestor:
  "ancestor h r n \<Longrightarrow> parent (h r) = None \<Longrightarrow> \<exists>k. walk_up h n key = Some (r, k)"
proof (induction arbitrary: key rule: ancestor.induct)
  case (a_parent h n a)
  then show ?case
    by (subst walk_up.simps, simp, subst walk_up.simps, simp)
next
  case (a_step h n q a)
  from a_step.IH [OF a_step.prems] a_step.hyps(1) show ?case
    by (subst walk_up.simps) simp
qed

lemma walk_up_root_of: "root_of h n r \<Longrightarrow> \<exists>k. walk_up h n key = Some (r, k)"
  unfolding root_of_def
proof (elim conjE disjE)
  assume "r = n" "parent (h r) = None"
  then show ?thesis by (subst walk_up.simps) simp
next
  assume "ancestor h r n" "parent (h r) = None"
  then show ?thesis by (rule walk_up_ancestor)
qed

lemma root_of_parent: "root_of h n r \<Longrightarrow> parent (h n) = Some p \<Longrightarrow> root_of h p r"
  unfolding root_of_def
  by (auto elim: ancestor.cases)

lemma getRootAndPath_root_of:
  assumes "root_of (heap s) n r"
  shows "\<exists>path. getRootAndPath s n = Some (r, path)"
proof (cases "parent (heap s n)")
  case None
  with assms have "r = n" unfolding root_of_def by (auto elim: ancestor.cases)
  with None show ?thesis by (simp add: getRootAndPath_def)
next
  case (Some p)
  from walk_up_root_of [OF root_of_parent [OF assms Some], of "name (heap s n)"]
  obtain k where "walk_up (heap s) p (name (heap s n)) = Some (r, k)" by blast
  with Some show ?thesis by (simp add: getRootAndPath_def)
qed

lemma root_of_child: "root_of h p r \<Longrightarrow> parent (h c) = Some p \<Longrightarrow> root_of h c r"
  unfolding root_of_def by (auto intro: ancestor.intros)

lemma root_of_exists:
  assumes wf: "wf_state s"
  shows "n < fresh s \<Longrightarrow> \<exists>r. root_of (heap s) n r"
proof (induction n rule: less_induct)
  case (less n)
  show ?case
  proof (cases "parent (heap s n)")
    case None
    then show ?thesis by (auto simp: root_of_def)
  next
    case (Some q)
    from wf_parentD [OF wf less.prems Some] have "q < n" .
    with less.IH [of q] less.prems obtain r where "root_of (heap s) q r" by auto
    from root_of_child [OF this Some] show ?thesis by blast
  qed
qed

lemma runCommand_returns:
  assumes "wf_state s" and "this < fresh s"
  shows "\<exists>s'. runCommand s this command args = Some s'"
proof -
  from root_of_exists [OF assms] obtain r where "root_of (heap s) this r" ..
  from getRootAndPath_root_of [OF this] obtain path where
    "getRootAndPath s this = Some (r, path)" ..
  then show ?thesis by (simp add: runCommand_def)
qed

subsection \<open>The example states\<close>

lemma hklm_eval:
  "case getRawKey init_state (js ''HKLM'') None of
     Inl _ \<Rightarrow> False
   | Inr (n, s) \<Rightarrow>
       n = 1 \<and> fresh s = 2 \<and> items (heap s 1) = None \<and> parent (heap s 1) = Some 0 \<and>
       name (heap s 1) = js ''HKEY_LOCAL_MACHINE'' \<and>
       keys (heap s 0) (js ''HKEY_LOCAL_MACHINE'') = Some 1 \<and> hosts64 s [] = Some 0 \<and>
       (case reread s 1 of
          None \<Rightarrow> False
        | Some (p, s1) \<Rightarrow>
            p = 0 \<and> fresh s1 = 2 \<and> npromises s1 = 1 \<and> items (heap s1 1) = Some 0 \<and>
            reread_completes (\<lambda>_. NaN) s1 1 (Close foo_line) \<and>
            \<not> reread_completes (\<lambda>_. NaN) s1 1 (Close bad_qword_lines) \<and>
            (case reread_settled (\<lambda>_. NaN) s1 1 0 (Close foo_line) of
               None \<Rightarrow> False
             | Some s2 \<Rightarrow>
                 fresh s2 = 3 \<and> found (heap s2 2) \<and> found (heap s2 1) \<and> \<not> found (heap s2 0) \<and>
                 parent (heap s2 2) = Some 1 \<and> parent (heap s2 1) = Some 0 \<and>
                 parent (heap s2 0) = None) \<and>
            (case reread_settled (\<lambda>_. NaN) s1 1 0 (Close bad_qword_lines) of
               None \<Rightarrow> False
             | Some s3 \<Rightarrow>
                 fresh s3 = 3 \<and> found (heap s3 2) \<and> \<not> found (heap s3 1) \<and>
                 parent (heap s3 2) = Some 1 \<and> parent (heap s3 1) = Some 0 \<and>
                 (case promises s3 0 of Rejected e \<Rightarrow> e = Thrown SyntaxError | _ \<Rightarrow> False)) \<and>
            (case reread_settled (\<lambda>_. NaN) s1 1 0 (Reject access_denied) of
               None \<Rightarrow> False
             | Some s4 \<Rightarrow>
                 items (heap s4 1) = Some 0 \<and>
                 (case promises s4 0 of Rejected e \<Rightarrow> e = Command_failed access_denied | _ \<Rightarrow> False) \<and>
                 fst (setValue_settled s4 1 (js ''Flag'') (DWORD (Num 1)) (Close [])) =
                   Rejects (Command_failed access_denied) \<and>
                 fst (deleteValue_settled s4 1 (js ''Flag'') (Close [])) =
                   Rejects (Command_failed access_denied)))"
  by code_simp

lemma hklm_facts:
  "getRawKey init_state (js ''HKLM'') None = Inr (1, snd hklm)"
  "fst hklm = 1" "fresh (snd hklm) = 2" "items (heap (snd hklm) 1) = None"
  "parent (heap (snd hklm) 1) = Some 0" "name (heap (snd hklm) 1) = js ''HKEY_LOCAL_MACHINE''"
  "keys (heap (snd hklm) 0) (js ''HKEY_LOCAL_MACHINE'') = Some 1" "hosts64 (snd hklm) [] = Some 0"
  "reread (snd hklm) 1 = Some (0, snd hklm_query)"
  "fst hklm_query = 0" "fresh (snd hklm_query) = 2" "npromises (snd hklm_query) = 1"
  "items (heap (snd hklm_query) 1) = Some 0"
  "reread_completes (\<lambda>_. NaN) (snd hklm_query) 1 (Close foo_line)"
  "reread_settled (\<lambda>_. NaN) (snd hklm_query) 1 0 (Close foo_line) = Some (hklm_settled (Close foo_line))"
  "reread_settled (\<lambda>_. NaN) (snd hklm_query) 1 0 (Close bad_qword_lines) =
     Some (hklm_settled (Close bad_qword_lines))"
  "reread_settled (\<lambda>_. NaN) (snd hklm_query) 1 0 (Reject access_denied) =
     Some (hklm_settled (Reject access_denied))"
  "\<not> reread_completes (\<lambda>_. NaN) (snd hklm_query) 1 (Close bad_qword_lines)"
proof -
  from hklm_eval obtain n s where g: "getRawKey init_state (js ''HKLM'') None = Inr (n, s)"
    and n: "n = 1" "fresh s = 2" "items (heap s 1) = None" "parent (heap s 1) = Some 0"
      "name (heap s 1) = js ''HKEY_LOCAL_MACHINE''"
      "keys (heap s 0) (js ''HKEY_LOCAL_MACHINE'') = Some 1" "hosts64 s [] = Some 0"
    and r: "case reread s 1 of None \<Rightarrow> False
        | Some (p, s1) \<Rightarrow>
            p = 0 \<and> fresh s1 = 2 \<and> npromises s1 = 1 \<and> items (heap s1 1) = Some 0 \<and>
            reread_completes (\<lambda>_. NaN) s1 1 (Close foo_line) \<and>
            \<not> reread_completes (\<lambda>_. NaN) s1 1 (Close bad_qword_lines) \<and>
            (case reread_settled (\<lambda>_. NaN) s1 1 0 (Close foo_line) of None \<Rightarrow> False | Some s2 \<Rightarrow> True) \<and>
            (case reread_settled (\<lambda>_. NaN) s1 1 0 (Close bad_qword_lines) of None \<Rightarrow> False | Some s3 \<Rightarrow> True) \<and>
            (case reread_settled (\<lambda>_. NaN) s1 1 0 (Reject access_denied) of None \<Rightarrow> False | Some s4 \<Rightarrow> True)"
    by (auto split: sum.splits prod.splits option.splits)
  have h: "hklm = (1, s)" by (simp only: hklm_def g n(1) sum.case)
  from r obtain p s1 where q: "reread s 1 = Some (p, s1)"
    and p: "p = 0" "fresh s1 = 2" "npromises s1 = 1" "items (heap s1 1) = Some 0"
      "reread_completes (\<lambda>_. NaN) s1 1 (Close foo_line)"
      "\<not> reread_completes (\<lambda>_. NaN) s1 1 (Close bad_qword_lines)"
    and r2: "case reread_settled (\<lambda>_. NaN) s1 1 0 (Close foo_line) of None \<Rightarrow> False | Some s2 \<Rightarrow> True"
    and r3: "case reread_settled (\<lambda>_. NaN) s1 1 0 (Close bad_qword_lines) of None \<Rightarrow> False | Some s3 \<Rightarrow> True"
    and r4: "case reread_settled (\<lambda>_. NaN) s1 1 0 (Reject access_denied) of None \<Rightarrow> False | Some s4 \<Rightarrow> True"
    by (auto split: option.splits prod.splits)
  have hq: "hklm_query = (0, s1)"
    by (simp only: hklm_query_def h fst_conv snd_conv q p(1) option.case)
  have st: "reread_settled (\<lambda>_. NaN) s1 1 0 outcome = Some (hklm_settled outcome)"
    if "case reread_settled (\<lambda>_. NaN) s1 1 0 outcome of None \<Rightarrow> False | Some s2 \<Rightarrow> True" for outcome
    using that unfolding hklm_settled_def h hq fst_conv snd_conv
    by (cases "reread_settled (\<lambda>_. NaN) s1 1 0 outcome") simp_all
  show "getRawKey init_state (js ''HKLM'') None = Inr (1, snd hklm)"
    unfolding h snd_conv using g n(1) by (simp only:)
  show "fst hklm = 1" unfolding h fst_conv ..
  show "fresh (snd hklm) = 2" unfolding h snd_conv by (rule n(2))
  show "items (heap (snd hklm) 1) = None" unfolding h snd_conv by (rule n(3))
  show "parent (heap (snd hklm) 1) = Some 0" unfolding h snd_conv by (rule n(4))
  show "name (heap (snd hklm) 1) = js ''HKEY_LOCAL_MACHINE''" unfolding h snd_conv by (rule n(5))
  show "keys (heap (snd hklm) 0) (js ''HKEY_LOCAL_MACHINE'') = Some 1" unfolding h snd_conv by (rule n(6))
  show "hosts64 (snd hklm) [] = Some 0" unfolding h snd_conv by (rule n(7))
  show "reread (snd hklm) 1 = Some (0, snd hklm_query)"
    unfolding h hq snd_conv using q p(1) by (simp only:)
  show "fst hklm_query = 0" unfolding hq fst_conv ..
  show "fresh (snd hklm_query) = 2" unfolding hq snd_conv by (rule p(2))
  show "npromises (snd hklm_query) = 1" unfolding hq snd_conv by (rule p(3))
  show "items (heap (snd hklm_query) 1) = Some 0" unfolding hq snd_conv by (rule p(4))
  show "reread_completes (\<lambda>_. NaN) (snd hklm_query) 1 (Close foo_line)"
    unfolding hq snd_conv by (rule p(5))
  show "reread_settled (\<lambda>_. NaN) (snd hklm_query) 1 0 (Close foo_line) = Some (hklm_settled (Close foo_line))"
    unfolding hq snd_conv by (rule st [OF r2])
  show "reread_settled (\<lambda>_. NaN) (snd hklm_query) 1 0 (Close bad_qword_lines) =
     Some (hklm_settled (Close bad_qword_lines))"
    unfolding hq snd_conv by (rule st [OF r3])
  show "reread_settled (\<lambda>_. NaN) (snd hklm_query) 1 0 (Reject access_denied) =
     Some (hklm_settled (Reject access_denied))"
    unfolding hq snd_conv by (rule st [OF r4])
  show "\<not> reread_completes (\<lambda>_. NaN) (snd hklm_query) 1 (Close bad_qword_lines)"
    unfolding hq snd_conv by (rule p(6))
qed

lemma hklm_settled_facts:
  "fresh (hklm_settled (Close foo_line)) = 3"
  "found (heap (hklm_settled (Close foo_line)) 2)"
  "found (heap (hklm_settled (Close foo_line)) 1)"
  "\<not> found (heap (hklm_settled (Close foo_line)) 0)"
  "parent (heap (hklm_settled (Close foo_line)) 2) = Some 1"
  "parent (heap (hklm_settled (Close foo_line)) 1) = Some 0"
  "parent (heap (hklm_settled (Close foo_line)) 0) = None"
  "fresh (hklm_settled (Close bad_qword_lines)) = 3"
  "found (heap (hklm_settled (Close bad_qword_lines)) 2)"
  "\<not> found (heap (hklm_settled (Close bad_qword_lines)) 1)"
  "parent (heap (hklm_settled (Close bad_qword_lines)) 2) = Some 1"
  "parent (heap (hklm_settled (Close bad_qword_lines)) 1) = Some 0"
  "promises (hklm_settled (Close bad_qword_lines)) 0 = Rejected (Thrown SyntaxError)"
  "items (heap (hklm_settled (Reject access_denied)) 1) = Some 0"
  "promises (hklm_settled (Reject access_denied)) 0 = Rejected (Command_failed access_denied)"
  "fst (setValue_settled (hklm_settled (Reject access_denied)) 1 (js ''Flag'') (DWORD (Num 1)) (Close [])) =
     Rejects (Command_failed access_denied)"
  "fst (deleteValue_settled (hklm_settled (Reject access_denied)) 1 (js ''Flag'') (Close [])) =
     Rejects (Command_failed access_denied)"
proof -
  have g: "getRawKey init_state (js ''HKLM'') None = Inr (1, snd hklm)" by (rule hklm_facts(1))
  have q: "reread (snd hklm) 1 = Some (0, snd hklm_query)" by (rule hklm_facts(9))
  note e = hklm_eval [unfolded g sum.case prod.case q option.case hklm_facts(15,16,17)]
  from e show "fresh (hklm_settled (Close foo_line)) = 3"
    "found (heap (hklm_settled (Close foo_line)) 2)"
    "found (heap (hklm_settled (Close foo_line)) 1)"
    "\<not> found (heap (hklm_settled (Close foo_line)) 0)"
    "parent (heap (hklm_settled (Close foo_line)) 2) = Some 1"
    "parent (heap (hklm_settled (Close foo_line)) 1) = Some 0"
    "parent (heap (hklm_settled (Close foo_line)) 0) = None"
    "fresh (hklm_settled (Close bad_qword_lines)) = 3"
    "found (heap (hklm_settled (Close bad_qword_lines)) 2)"
    "\<not> found (heap (hklm_settled (Close bad_qword_lines)) 1)"
    "parent (heap (hklm_settled (Close bad_qword_lines)) 2) = Some 1"
    "parent (heap (hklm_settled (Close bad_qword_lines)) 1) = Some 0"
    "items (heap (hklm_settled (Reject access_denied)) 1) = Some 0"
    "fst (setValue_settled (hklm_settled (Reject access_denied)) 1 (js ''Flag'') (DWORD (Num 1)) (Close [])) =
       Rejects (Command_failed access_denied)"
    "fst (deleteValue_settled (hklm_settled (Reject access_denied)) 1 (js ''Flag'') (Close [])) =
       Rejects (Command_failed access_denied)"
    by blast+
  from e show "promises (hklm_settled (Close bad_qword_lines)) 0 = Rejected (Thrown SyntaxError)"
    by (cases "promises (hklm_settled (Close bad_qword_lines)) 0") simp_all
  from e show "promises (hklm_settled (Reject access_denied)) 0 = Rejected (Command_failed access_denied)"
    by (cases "promises (hklm_settled (Reject access_denied)) 0") simp_all
qed

lemma hklm_reachable: "reached c (snd hklm)"
  by (rule r_getRawKey [OF r_init hklm_facts(1)])

lemma hklm_query_reachable: "reached c (snd hklm_query)"
proof (rule r_reread [OF hklm_reachable _ hklm_facts(9)])
  show "1 < fresh (snd hklm)" unfolding hklm_facts(3) by simp
qed

lemma hklm_query_parent: "parent (heap (snd hklm_query) 1) = Some 0"
  using same_tree_reread [OF hklm_facts(9)] hklm_facts(5) by (simp add: same_tree_def)

lemma hklm_settled_reachable: "reached c (hklm_settled (Close foo_line))"
proof (rule r_reread_settled [OF hklm_query_reachable _ _ hklm_facts(15)])
  show "1 < fresh (snd hklm_query)" unfolding hklm_facts(11) by simp
  show "c \<longrightarrow> reread_completes (\<lambda>_. NaN) (snd hklm_query) 1 (Close foo_line)"
    using hklm_facts(14) by simp
qed

lemma hklm_thrown_reachable: "reachable (hklm_settled (Close bad_qword_lines))"
proof (rule r_reread_settled [OF hklm_query_reachable _ _ hklm_facts(16)])
  show "1 < fresh (snd hklm_query)" unfolding hklm_facts(11) by simp
  show "False \<longrightarrow> reread_completes (\<lambda>_. NaN) (snd hklm_query) 1 (Close bad_qword_lines)"
    by simp
qed

lemma siblings_eval:
  "case getRawKey init_state path_A None of
     Inl _ \<Rightarrow> False
   | Inr (n1, s1) \<Rightarrow>
       n1 = 2 \<and>
       (case getRawKey s1 path_B None of
          Inl _ \<Rightarrow> False
        | Inr (n2, s2) \<Rightarrow>
            n2 = 3 \<and>
            (case getRawKey s2 path_C None of
               Inl _ \<Rightarrow> False
             | Inr (n3, s3) \<Rightarrow>
                 n3 = 4 \<and>
                 (fresh s3 = 5 \<and>
                  parent (heap s3 1) = Some 0 \<and> parent (heap s3 2) = Some 1 \<and>
                  parent (heap s3 3) = Some 1 \<and> parent (heap s3 4) = Some 1 \<and>
                  name (heap s3 1) = js ''HKEY_LOCAL_MACHINE'' \<and> name (heap s3 2) = js ''A'' \<and>
                  name (heap s3 3) = js ''B'' \<and> name (heap s3 4) = js ''C'' \<and>
                  keys (heap s3 0) (js ''HKEY_LOCAL_MACHINE'') = Some 1 \<and>
                  keys (heap s3 1) (js ''A'') = Some 2 \<and> keys (heap s3 1) (js ''B'') = Some 3 \<and>
                  keys (heap s3 1) (js ''C'') = Some 4) \<and>
                 (case getRawKey (snd (destroy_settled s3 2 (Close []))) path_A None of
                    Inl _ \<Rightarrow> False
                  | Inr (n4, s4) \<Rightarrow>
                      n4 = 5 \<and>
                      (fresh s4 = 6 \<and> parent (heap s4 2) = Some 1 \<and> name (heap s4 2) = js ''A'' \<and>
                       parent (heap s4 5) = Some 1 \<and> name (heap s4 5) = js ''A'' \<and>
                       keys (heap s4 1) (js ''A'') = Some 5 \<and>
                       fst (destroy_settled s4 2 (Close [])) = Resolves True \<and>
                       keys (heap (snd (destroy_settled s4 2 (Close []))) 1) (js ''A'') = None) \<and>
                      (case importreg_settled s4 None (Some [2]) (Close []) of
                         None \<Rightarrow> False
                       | Some (b, s5) \<Rightarrow>
                           b = Resolves True \<and> keys (heap s5 1) (js ''A'') = None))))"
  by code_simp

lemma siblings_stale_facts:
  "getRawKey init_state path_A None = Inr (2, resolved init_state path_A)"
  "getRawKey (resolved init_state path_A) path_B None =
     Inr (3, resolved (resolved init_state path_A) path_B)"
  "getRawKey (resolved (resolved init_state path_A) path_B) path_C None = Inr (4, siblings)"
  "fresh siblings = 5 \<and>
   parent (heap siblings 1) = Some 0 \<and> parent (heap siblings 2) = Some 1 \<and>
   parent (heap siblings 3) = Some 1 \<and> parent (heap siblings 4) = Some 1 \<and>
   name (heap siblings 1) = js ''HKEY_LOCAL_MACHINE'' \<and> name (heap siblings 2) = js ''A'' \<and>
   name (heap siblings 3) = js ''B'' \<and> name (heap siblings 4) = js ''C'' \<and>
   keys (heap siblings 0) (js ''HKEY_LOCAL_MACHINE'') = Some 1 \<and>
   keys (heap siblings 1) (js ''A'') = Some 2 \<and> keys (heap siblings 1) (js ''B'') = Some 3 \<and>
   keys (heap siblings 1) (js ''C'') = Some 4"
  "getRawKey (snd (destroy_settled siblings 2 (Close []))) path_A None = Inr (5, stale)"
  "fresh stale = 6 \<and> parent (heap stale 2) = Some 1 \<and> name (heap stale 2) = js ''A'' \<and>
   parent (heap stale 5) = Some 1 \<and> name (heap stale 5) = js ''A'' \<and>
   keys (heap stale 1) (js ''A'') = Some 5 \<and>
   fst (destroy_settled stale 2 (Close [])) = Resolves True \<and>
   keys (heap (snd (destroy_settled stale 2 (Close []))) 1) (js ''A'') = None"
  "importreg_settled stale None (Some [2]) (Close []) = Some (Resolves True, stale_imported)"
  "keys (heap stale_imported 1) (js ''A'') = None"
proof -
  obtain n1 s1 where g1: "getRawKey init_state path_A None = Inr (n1, s1)"
    using siblings_eval by (cases "getRawKey init_state path_A None") auto
  note e1 = siblings_eval [unfolded g1 sum.case prod.case]
  from e1 have n1: "n1 = 2" by (rule conjunct1)
  obtain n2 s2 where g2: "getRawKey s1 path_B None = Inr (n2, s2)"
    using e1 by (cases "getRawKey s1 path_B None") auto
  note e2 = e1 [THEN conjunct2, unfolded g2 sum.case prod.case]
  from e2 have n2: "n2 = 3" by (rule conjunct1)
  obtain n3 s3 where g3: "getRawKey s2 path_C None = Inr (n3, s3)"
    using e2 by (cases "getRawKey s2 path_C None") auto
  note e3 = e2 [THEN conjunct2, unfolded g3 sum.case prod.case]
  from e3 have n3: "n3 = 4" by (rule conjunct1)
  obtain n4 s4 where g4: "getRawKey (snd (destroy_settled s3 2 (Close []))) path_A None = Inr (n4, s4)"
    using e3 by (cases "getRawKey (snd (destroy_settled s3 2 (Close []))) path_A None") auto
  note e4 = e3 [THEN conjunct2, THEN conjunct2, unfolded g4 sum.case prod.case]
  from e4 have n4: "n4 = 5" by (rule conjunct1)
  obtain b s5 where g5: "importreg_settled s4 None (Some [2]) (Close []) = Some (b, s5)"
    using e4 by (cases "importreg_settled s4 None (Some [2]) (Close [])") auto
  note e5 = e4 [THEN conjunct2, THEN conjunct2, unfolded g5 option.case prod.case]
  have r1: "resolved init_state path_A = s1" by (simp add: resolved_def g1)
  have r2: "resolved s1 path_B = s2" by (simp add: resolved_def g2)
  have r3: "siblings = s3" unfolding siblings_def r1 r2 by (simp add: resolved_def g3)
  have r4: "stale = s4" unfolding stale_def r3 by (simp add: resolved_def g4)
  have r5: "stale_imported = s5" unfolding stale_imported_def r4 by (simp add: g5)
  show "getRawKey init_state path_A None = Inr (2, resolved init_state path_A)"
    unfolding r1 using g1 n1 by (simp only:)
  show "getRawKey (resolved init_state path_A) path_B None =
     Inr (3, resolved (resolved init_state path_A) path_B)"
    unfolding r1 r2 using g2 n2 by (simp only:)
  show "getRawKey (resolved (resolved init_state path_A) path_B) path_C None = Inr (4, siblings)"
    unfolding r3 r1 r2 using g3 n3 by (simp only:)
  show "fresh siblings = 5 \<and>
   parent (heap siblings 1) = Some 0 \<and> parent (heap siblings 2) = Some 1 \<and>
   parent (heap siblings 3) = Some 1 \<and> parent (heap siblings 4) = Some 1 \<and>
   name (heap siblings 1) = js ''HKEY_LOCAL_MACHINE'' \<and> name (heap siblings 2) = js ''A'' \<and>
   name (heap siblings 3) = js ''B'' \<and> name (heap siblings 4) = js ''C'' \<and>
   keys (heap siblings 0) (js ''HKEY_LOCAL_MACHINE'') = Some 1 \<and>
   keys (heap siblings 1) (js ''A'') = Some 2 \<and> keys (heap siblings 1) (js ''B'') = Some 3 \<and>
   keys (heap siblings 1) (js ''C'') = Some 4"
    unfolding r3 by (rule e3 [THEN conjunct2, THEN conjunct1])
  show "getRawKey (snd (destroy_settled siblings 2 (Close []))) path_A None = Inr (5, stale)"
    unfolding r3 r4 using g4 n4 by (simp only:)
  show "fresh stale = 6 \<and> parent (heap stale 2) = Some 1 \<and> name (heap stale 2) = js ''A'' \<and>
   parent (heap stale 5) = Some 1 \<and> name (heap stale 5) = js ''A'' \<and>
   keys (heap stale 1) (js ''A'') = Some 5 \<and>
   fst (destroy_settled stale 2 (Close [])) = Resolves True \<and>
   keys (heap (snd (destroy_settled stale 2 (Close []))) 1) (js ''A'') = None"
    unfolding r4 by (rule e4 [THEN conjunct2, THEN conjunct1])
  show "importreg_settled stale None (Some [2]) (Close []) = Some (Resolves True, stale_imported)"
    unfolding r4 r5 using g5 e5 by simp
  show "keys (heap stale_imported 1) (js ''A'') = None"
    unfolding r5 using e5 by simp
qed

lemma siblings_reachable: "reached c siblings"
  by (rule r_getRawKey [OF r_getRawKey [OF r_getRawKey [OF r_init siblings_stale_facts(1)]
      siblings_stale_facts(2)] siblings_stale_facts(3)])

lemma stale_reachable: "reached c stale"
proof (rule r_getRawKey [OF _ siblings_stale_facts(5)])
  show "reached c (snd (destroy_settled siblings 2 (Close [])))"
  proof (rule r_destroy_settled [OF siblings_reachable])
    show "2 < fresh siblings" using siblings_stale_facts(4) by simp
    show "destroy_settled siblings 2 (Close []) =
        (fst (destroy_settled siblings 2 (Close [])), snd (destroy_settled siblings 2 (Close [])))"
      by simp
  qed
qed

subsection \<open>Existence flags\<close>

text \<open>
  C3, as the code has it.  In every state the operations reach, an object without a
  parent (a root) is not confirmed: no operation confirms a root.  In every state that is
  reached without a callback of a read that threw, every ancestor of a confirmed key is
  confirmed unless it is a root; and after the callback of a read has run to completion
  on a key that has a parent, that key is confirmed, and so is every ancestor of it but
  the root.
\<close>

theorem existence_propagates_below_root:
  "(reachable s \<longrightarrow> (\<forall>r. parent (heap s r) = None \<longrightarrow> \<not> found (heap s r))) \<and>
   (reachable_completed s \<longrightarrow>
      (\<forall>n a. n < fresh s \<longrightarrow> found (heap s n) \<longrightarrow> ancestor (heap s) a n \<longrightarrow>
         parent (heap s a) \<noteq> None \<longrightarrow> found (heap s a)) \<and>
      (\<forall>ToNumber this p stdout.
         this < fresh s \<longrightarrow> parent (heap s this) \<noteq> None \<longrightarrow>
         reread_completes ToNumber s this (Close stdout) \<longrightarrow>
         (\<exists>s'. reread_settled ToNumber s this p (Close stdout) = Some s' \<and>
            reachable_completed s' \<and> found (heap s' this) \<and>
            (\<forall>a. ancestor (heap s') a this \<longrightarrow> parent (heap s' a) \<noteq> None \<longrightarrow>
               found (heap s' a)))))"
proof (intro conjI allI impI)
  fix r
  assume re: "reachable s" and par: "parent (heap s r) = None"
  from reached_tree_inv [OF re] have "roots_unfound s" by (simp add: tree_inv_def)
  with par show "\<not> found (heap s r)" unfolding roots_unfound_def by blast
next
  fix n a
  assume "reachable_completed s"
    and "n < fresh s" "found (heap s n)" "ancestor (heap s) a n" "parent (heap s a) \<noteq> None"
  with ancestor_found [OF reached_tree_inv] show "found (heap s a)" by blast
next
  fix ToNumber this p stdout
  assume re: "reachable_completed s"
    and t: "this < fresh s" and par: "parent (heap s this) \<noteq> None"
    and c: "reread_completes ToNumber s this (Close stdout)"
  from c have c': "True \<longrightarrow> reread_completes ToNumber s this (Close stdout)" by simp
  from reread_settled_inv [OF reached_tree_inv [OF re] t c', of p] obtain s' where
    r: "reread_settled ToNumber s this p (Close stdout) = Some s'" and t': "this < fresh s'"
    and f: "found (heap s' this)"
    using par c by auto
  have re': "reachable_completed s'" by (rule r_reread_settled [OF re t c' r])
  have "found (heap s' a)" if "ancestor (heap s') a this" "parent (heap s' a) \<noteq> None" for a
    using ancestor_found [OF reached_tree_inv [OF re'] that(1) t' f that(2)] by simp
  with r re' f show "\<exists>s'. reread_settled ToNumber s this p (Close stdout) = Some s' \<and>
       reachable_completed s' \<and> found (heap s' this) \<and>
       (\<forall>a. ancestor (heap s') a this \<longrightarrow> parent (heap s' a) \<noteq> None \<longrightarrow> found (heap s' a))"
    by blast
qed

theorem existence_propagates_below_root_witness:
  "reachable (hklm_settled (Close foo_line)) \<and>
   parent (heap (hklm_settled (Close foo_line)) 0) = None \<and>
   \<not> found (heap (hklm_settled (Close foo_line)) 0) \<and>
   reachable_completed (hklm_settled (Close foo_line)) \<and>
   2 < fresh (hklm_settled (Close foo_line)) \<and>
   found (heap (hklm_settled (Close foo_line)) 2) \<and>
   ancestor (heap (hklm_settled (Close foo_line))) 1 2 \<and>
   parent (heap (hklm_settled (Close foo_line)) 1) \<noteq> None \<and>
   found (heap (hklm_settled (Close foo_line)) 1) \<and>
   reachable_completed (snd hklm_query) \<and> 1 < fresh (snd hklm_query) \<and>
   parent (heap (snd hklm_query) 1) \<noteq> None \<and>
   reread_completes (\<lambda>_. NaN) (snd hklm_query) 1 (Close foo_line) \<and>
   reread_settled (\<lambda>_. NaN) (snd hklm_query) 1 0 (Close foo_line) =
     Some (hklm_settled (Close foo_line))"
proof -
  note t = existence_propagates_below_root [of "hklm_settled (Close foo_line)"]
  note q = existence_propagates_below_root [of "snd hklm_query"]
  have a: "ancestor (heap (hklm_settled (Close foo_line))) 1 2"
    by (rule a_parent [of "heap (hklm_settled (Close foo_line))" 2 1, OF hklm_settled_facts(5)])
  have f: "2 < fresh (hklm_settled (Close foo_line))" unfolding hklm_settled_facts(1) by simp
  have p: "parent (heap (hklm_settled (Close foo_line)) 1) \<noteq> None"
    unfolding hklm_settled_facts(6) by simp
  have fq: "1 < fresh (snd hklm_query)" unfolding hklm_facts(11) by simp
  have pq: "parent (heap (snd hklm_query) 1) \<noteq> None" unfolding hklm_query_parent by simp
  from t hklm_settled_reachable hklm_settled_facts(7)
  have r0: "\<not> found (heap (hklm_settled (Close foo_line)) 0)" by blast
  from t hklm_settled_reachable f hklm_settled_facts(2) a p
  have f1: "found (heap (hklm_settled (Close foo_line)) 1)" by blast
  from q hklm_query_reachable fq pq hklm_facts(14)
  have "\<exists>s'. reread_settled (\<lambda>_. NaN) (snd hklm_query) 1 0 (Close foo_line) = Some s' \<and>
      reachable_completed s' \<and> found (heap s' 1)"
    by blast
  with hklm_facts(15) have "reachable_completed (hklm_settled (Close foo_line))" by auto
  with r0 f1 hklm_settled_reachable hklm_query_reachable hklm_settled_facts(2,7) a f p fq pq
    hklm_facts(14,15)
  show ?thesis by blast
qed

text \<open>
  C3 as stated fails at the root: after a read of \<open>HKLM\<close> the key is confirmed and
  its root, an ancestor, is not.
\<close>

theorem root_is_never_confirmed_counterexample:
  "reachable_completed (hklm_settled (Close foo_line)) \<and>
   found (heap (hklm_settled (Close foo_line)) 1) \<and>
   ancestor (heap (hklm_settled (Close foo_line))) 0 1 \<and>
   \<not> found (heap (hklm_settled (Close foo_line)) 0)"
  using hklm_settled_reachable hklm_settled_facts(3,4)
    a_parent [of "heap (hklm_settled (Close foo_line))" 1 0, OF hklm_settled_facts(6)]
  by blast

text \<open>
  When a parser throws, the callback of the read ends before its last loop: the subkey
  \<open>Foo\<close> found by an earlier line is confirmed and the key itself is not.  The state is
  one of \<open>reachable\<close> and not of \<open>reachable_completed\<close>.
\<close>

lemma reread_callback_throw:
  "reachable (hklm_settled (Close bad_qword_lines)) \<and>
   reread_settled (\<lambda>_. NaN) (snd hklm_query) 1 0 (Close bad_qword_lines) =
     Some (hklm_settled (Close bad_qword_lines)) \<and>
   \<not> reread_completes (\<lambda>_. NaN) (snd hklm_query) 1 (Close bad_qword_lines) \<and>
   promises (hklm_settled (Close bad_qword_lines)) 0 = Rejected (Thrown SyntaxError) \<and>
   found (heap (hklm_settled (Close bad_qword_lines)) 2) \<and>
   parent (heap (hklm_settled (Close bad_qword_lines)) 2) = Some 1 \<and>
   parent (heap (hklm_settled (Close bad_qword_lines)) 1) = Some 0 \<and>
   \<not> found (heap (hklm_settled (Close bad_qword_lines)) 1)"
  using hklm_thrown_reachable hklm_facts(16,18) hklm_settled_facts(9,10,11,12,13) by blast

lemma thrown_state_not_completed: "\<not> reachable_completed (hklm_settled (Close bad_qword_lines))"
proof
  assume "reachable_completed (hklm_settled (Close bad_qword_lines))"
  from reached_tree_inv [OF this] have "found_inv (hklm_settled (Close bad_qword_lines))"
    by (simp add: tree_inv_def)
  then have "2 < fresh (hklm_settled (Close bad_qword_lines)) \<longrightarrow>
      found (heap (hklm_settled (Close bad_qword_lines)) 2) \<longrightarrow>
      parent (heap (hklm_settled (Close bad_qword_lines)) 2) = Some 1 \<longrightarrow>
      parent (heap (hklm_settled (Close bad_qword_lines)) 1) \<noteq> None \<longrightarrow>
      found (heap (hklm_settled (Close bad_qword_lines)) 1)"
    unfolding found_inv_def by blast
  then have "found (heap (hklm_settled (Close bad_qword_lines)) 1)"
    using hklm_settled_facts(8,9,11,12) by simp
  with hklm_settled_facts(10) show False by simp
qed

subsection \<open>Reading\<close>



subsection \<open>Validation of a path\<close>

text \<open>
  \<open>KEY_PATTERN\<close> has no anchors and its star matches the empty string, so
  \<open>KEY_PATTERN.test\<close> is true of every string.
\<close>

lemma matches_Star_nonempty: "matches (Star r) st \<noteq> []"
  by (cases st) simp

lemma test_KEY_PATTERN: "test KEY_PATTERN key"
proof -
  have "matches KEY_PATTERN (0, drop 0 key, (\<lambda>k. None)) \<noteq> []"
    unfolding KEY_PATTERN_def by (rule matches_Star_nonempty)
  then have "concat (map (\<lambda>i. matches KEY_PATTERN (i, drop i key, (\<lambda>k. None))) [0 ..< Suc (length key)]) \<noteq> []"
    by (simp add: upt_conv_Cons del: upt_Suc)
  then show ?thesis
    by (simp add: test_def exec_def split: list.splits)
qed

text \<open>
  C6 at \<open>HKLM\a*b\<close>: the claim says that a segment with \<open>*\<close> is rejected with an
  illegal-key error; \<open>getRawKey\<close> returns the key \<open>a*b\<close> under \<open>HKEY_LOCAL_MACHINE\<close>.
\<close>

theorem getRawKey_accepts_star_segment:
  "(case getRawKey init_state (js ''HKLM'' @ [92] @ js ''a*b'') None of
      Inl e \<Rightarrow> False
    | Inr (n, s) \<Rightarrow> n = 2 \<and> name (heap s n) = js ''a*b'' \<and> parent (heap s n) = Some 1)"
  by code_simp

text \<open>No input makes \<open>getRawKey\<close> throw the illegal-key error.\<close>

lemma getRawKey_never_illegal_key: "getRawKey s key view \<noteq> Inl (Error ''illegal key specified.'')"
  by (auto simp: getRawKey_def Let_def test_KEY_PATTERN split: prod.splits)

subsection \<open>Results of the mutating operations\<close>

text \<open>
  C8 at a key whose memoized promise was rejected (its QUERY command failed): when the
  ADD or DELETE command then succeeds, the promise that \<open>setValue\<close> or
  \<open>deleteValue\<close> returned is rejected with the error of the read, where the claim says
  it resolves to a boolean.
\<close>

theorem setValue_rejects_after_failed_read:
  "reread_settled (\<lambda>_. NaN) (snd hklm_query) 1 0 (Reject access_denied) =
     Some (hklm_settled (Reject access_denied)) \<and>
   items (heap (hklm_settled (Reject access_denied)) 1) = Some 0 \<and>
   promises (hklm_settled (Reject access_denied)) 0 = Rejected (Command_failed access_denied) \<and>
   fst (setValue_settled (hklm_settled (Reject access_denied)) 1 (js ''Flag'') (DWORD (Num 1)) (Close [])) =
     Rejects (Command_failed access_denied) \<and>
   fst (deleteValue_settled (hklm_settled (Reject access_denied)) 1 (js ''Flag'') (Close [])) =
     Rejects (Command_failed access_denied)"
  using hklm_facts(17) hklm_settled_facts(14,15,16,17) by blast

text \<open>
  In the other cases the results are booleans: \<open>clear\<close> and \<open>destroy\<close> always, and
  \<open>setValue\<close> and \<open>deleteValue\<close> when the command failed, when no promise is
  memoized, or when the memoized promise is fulfilled.
\<close>

lemma mutators_collapse_otherwise:
  "fst (clear_settled s this (Close out)) = Resolves True"
  "fst (clear_settled s this (Reject err)) = Resolves False"
  "fst (destroy_settled s this (Close out)) = Resolves True"
  "fst (destroy_settled s this (Reject err)) = Resolves False"
  "fst (setValue_settled s this key v (Reject err)) = Resolves False"
  "fst (deleteValue_settled s this key (Reject err)) = Resolves False"
  "items (heap s this) = None \<Longrightarrow> fst (setValue_settled s this key v (Close out)) = Resolves True"
  "items (heap s this) = None \<Longrightarrow> fst (deleteValue_settled s this key (Close out)) = Resolves True"
  "items (heap s this) = Some p \<Longrightarrow> promises s p = Fulfilled x \<Longrightarrow>
     fst (setValue_settled s this key v (Close out)) = Resolves True"
  "items (heap s this) = Some p \<Longrightarrow> promises s p = Fulfilled x \<Longrightarrow>
     fst (deleteValue_settled s this key (Close out)) = Resolves True"
  by (simp_all add: clear_settled_def destroy_settled_def setValue_settled_def
      deleteValue_settled_def update_items_def)

subsection \<open>Destroying a key\<close>

text \<open>
  C7, as the code has it: \<open>destroy\<close> deletes by name.  For a key with a parent, in
  every state the operations reach, the call of \<open>destroy\<close> returns and only starts the
  command.
  When the command fails, the callback leaves the state as it is and the result is
  \<open>false\<close>.  When it succeeds, the result is \<open>true\<close> and the only change is in the
  child mapping of the parent, where the entry under the name of the key is removed;
  when that entry is the key itself (the key is attached), a child mapping holds
  afterwards exactly the entries it held before but the key.
\<close>

theorem destroy_detaches_the_key:
  assumes "reachable s" and "this < fresh s" and "parent (heap s this) = Some q"
  shows "(\<exists>s1. destroy s this = Some s1) \<and>
         (\<forall>s1. destroy s this = Some s1 \<longrightarrow>
            heap s1 = heap s \<and> fresh s1 = fresh s \<and> promises s1 = promises s \<and>
            hosts32 s1 = hosts32 s \<and> hosts64 s1 = hosts64 s) \<and>
         destroy_settled s this (Reject err) = (Resolves False, s) \<and>
         fst (destroy_settled s this (Close out)) = Resolves True \<and>
         snd (destroy_settled s this (Close out)) =
           s\<lparr>heap := (heap s)(q := (heap s q)\<lparr>keys := (keys (heap s q))(name (heap s this) := None)\<rparr>)\<rparr> \<and>
         (\<forall>r k. keys (heap (snd (destroy_settled s this (Close out))) r) k =
            (if r = q \<and> k = name (heap s this) then None else keys (heap s r) k)) \<and>
         (keys (heap s q) (name (heap s this)) = Some this \<longrightarrow>
            (\<forall>r k c. r < fresh s \<longrightarrow>
               (keys (heap (snd (destroy_settled s this (Close out))) r) k = Some c \<longleftrightarrow>
                keys (heap s r) k = Some c \<and> c \<noteq> this)))"
proof (intro conjI allI impI)
  from reached_tree_inv [OF assms(1)] have "wf_state s" by (rule tree_inv_wf)
  from runCommand_returns [OF this assms(2)] show "\<exists>s1. destroy s this = Some s1"
    unfolding destroy_def .
next
  fix s1
  assume "destroy s this = Some s1"
  then show "heap s1 = heap s" "fresh s1 = fresh s" "promises s1 = promises s"
    "hosts32 s1 = hosts32 s" "hosts64 s1 = hosts64 s"
    by (auto simp: destroy_def runCommand_def split: option.splits prod.splits)
next
  show "destroy_settled s this (Reject err) = (Resolves False, s)"
    by (simp add: destroy_settled_def)
  show "fst (destroy_settled s this (Close out)) = Resolves True"
    by (simp add: destroy_settled_def)
  show "snd (destroy_settled s this (Close out)) =
      s\<lparr>heap := (heap s)(q := (heap s q)\<lparr>keys := (keys (heap s q))(name (heap s this) := None)\<rparr>)\<rparr>"
    using assms(3) by (simp add: destroy_settled_def set_keys_def)
next
  fix r k
  show "keys (heap (snd (destroy_settled s this (Close out))) r) k =
      (if r = q \<and> k = name (heap s this) then None else keys (heap s r) k)"
    using assms(3) by (simp add: destroy_settled_def)
next
  fix r k c
  assume att: "keys (heap s q) (name (heap s this)) = Some this" and r: "r < fresh s"
  from reached_tree_inv [OF assms(1)] have wf: "wf_state s" by (simp add: tree_inv_def)
  have k': "keys (heap (snd (destroy_settled s this (Close out))) r) k =
      (if r = q \<and> k = name (heap s this) then None else keys (heap s r) k)"
    using assms(3) by (simp add: destroy_settled_def)
  show "keys (heap (snd (destroy_settled s this (Close out))) r) k = Some c \<longleftrightarrow>
      keys (heap s r) k = Some c \<and> c \<noteq> this"
  proof (cases "r = q \<and> k = name (heap s this)")
    case True
    with att k' show ?thesis by auto
  next
    case False
    have "c \<noteq> this" if "keys (heap s r) k = Some c"
      using wf_keysD [OF wf r that] False assms(3) by auto
    with False k' show ?thesis by auto
  qed
qed

theorem destroy_detaches_the_key_witness:
  "reachable siblings \<and> 2 < fresh siblings \<and> parent (heap siblings 2) = Some 1 \<and>
   keys (heap siblings 1) (name (heap siblings 2)) = Some 2 \<and>
   keys (heap siblings 1) (js ''B'') = Some 3 \<and>
   fst (destroy_settled siblings 2 (Close [])) = Resolves True \<and>
   keys (heap (snd (destroy_settled siblings 2 (Close []))) 1) (js ''A'') = None \<and>
   keys (heap (snd (destroy_settled siblings 2 (Close []))) 1) (js ''B'') = Some 3 \<and>
   destroy_settled siblings 2 (Reject access_denied) = (Resolves False, siblings)"
proof -
  note s = siblings_stale_facts(4)
  have f: "2 < fresh siblings" using s by simp
  have p: "parent (heap siblings 2) = Some 1" using s by simp
  have a: "keys (heap siblings 1) (name (heap siblings 2)) = Some 2" using s by simp
  have b: "keys (heap siblings 1) (js ''B'') = Some 3" using s by simp
  note t = destroy_detaches_the_key [OF siblings_reachable f p, of access_denied "[]"]
  from t have "keys (heap (snd (destroy_settled siblings 2 (Close []))) 1) (js ''A'') =
      (if (1::nat) = 1 \<and> js ''A'' = name (heap siblings 2) then None
       else keys (heap siblings 1) (js ''A''))"
    by blast
  then have ka: "keys (heap (snd (destroy_settled siblings 2 (Close []))) 1) (js ''A'') = None"
    using s by simp
  from t a have "1 < fresh siblings \<longrightarrow>
      (keys (heap (snd (destroy_settled siblings 2 (Close []))) 1) (js ''B'') = Some 3 \<longleftrightarrow>
       keys (heap siblings 1) (js ''B'') = Some 3 \<and> (3::nat) \<noteq> 2)"
    by blast
  then have kb: "keys (heap (snd (destroy_settled siblings 2 (Close []))) 1) (js ''B'') = Some 3"
    using s by simp
  from t siblings_reachable f p a b ka kb show ?thesis by blast
qed

text \<open>
  C7 as stated fails for a key that is not attached.  In \<open>stale\<close> object 2 is the key
  \<open>A\<close> that was destroyed, and its parent holds the new object 5 under the name \<open>A\<close>.
  \<open>destroy\<close> on object 2 resolves \<open>true\<close> and removes the entry of object 5: the entry
  that goes is not the entry of the key, which has none.
\<close>

theorem destroy_of_stale_key_counterexample:
  "reachable stale \<and> 2 < fresh stale \<and> parent (heap stale 2) = Some 1 \<and>
   name (heap stale 2) = js ''A'' \<and> keys (heap stale 1) (js ''A'') = Some 5 \<and>
   destroy_settled stale 2 (Close []) = (Resolves True, stale_destroyed) \<and>
   keys (heap stale_destroyed 1) (js ''A'') = None"
proof -
  note s = siblings_stale_facts(6)
  have "destroy_settled stale 2 (Close []) = (Resolves True, stale_destroyed)"
    using s by (simp add: stale_destroyed_def prod_eq_iff)
  moreover have "keys (heap stale_destroyed 1) (js ''A'') = None"
    using s by (simp add: stale_destroyed_def)
  moreover have "2 < fresh stale" using s by simp
  ultimately show ?thesis using stale_reachable s by blast
qed

subsection \<open>The default view\<close>

lemma ancestor_add_child:
  assumes wf: "wf_state s"
  shows "ancestor (heap s) a n \<Longrightarrow> n < fresh s \<Longrightarrow> ancestor (heap (add_child s p i)) a n"
proof (induction "heap s" a n rule: ancestor.induct)
  case (a_parent n a)
  then have "parent (heap (add_child s p i) n) = Some a" by simp
  then show ?case by (rule ancestor.a_parent)
next
  case (a_step n q a)
  have q: "q < fresh s" using wf_parentD [OF wf a_step(4) a_step(1)] a_step(4) by simp
  have "parent (heap (add_child s p i) n) = Some q" using a_step(1,4) by simp
  then show ?case using a_step(3) [OF q] by (rule ancestor.a_step)
qed

lemma root_of_add_child:
  assumes wf: "wf_state s" and r: "root_of (heap s) n r" and n: "n < fresh s" and rf: "r < fresh s"
  shows "root_of (heap (add_child s p i)) n r"
  using r ancestor_add_child [OF wf _ n, of r p i] rf unfolding root_of_def by auto

lemma subkey_step_rooted:
  assumes "rooted p host h32 ps"
  shows "rooted p host h32 (subkey_step ps i)"
proof (cases ps)
  case (Pair cur s)
  with assms have wf: "wf_state s" and cur: "cur < fresh s" and p: "p < fresh s"
    and ro: "root_of (heap s) cur p" and h32: "hosts32 s = h32" and h64: "hosts64 s host = Some p"
    by (simp_all add: rooted_def)
  show ?thesis
  proof (cases "keys (heap s cur) i")
    case (Some c)
    from wf_keysD [OF wf cur Some] have c: "c < fresh s" "parent (heap s c) = Some cur" by simp_all
    from root_of_child [OF ro c(2)] have "root_of (heap s) c p" .
    then show ?thesis
      using Pair Some wf c(1) p h32 h64 by (simp add: subkey_step_cases rooted_def)
  next
    case None
    have cf: "cur \<noteq> fresh s" using cur by simp
    have "root_of (heap (add_child s cur i)) cur p"
      by (rule root_of_add_child [OF wf ro cur p])
    moreover have "parent (heap (add_child s cur i) (fresh s)) = Some cur" using cf by simp
    ultimately have "root_of (heap (add_child s cur i)) (fresh s) p" by (rule root_of_child)
    moreover have "wf_state (add_child s cur i)"
      using wf cur by (rule wf_add_child)
    ultimately show ?thesis
      using Pair None p h32 h64 by (simp add: subkey_step_cases rooted_def)
  qed
qed

lemma foldl_subkey_step_rooted:
  "rooted p host h32 ps \<Longrightarrow> rooted p host h32 (foldl subkey_step ps ks)"
  by (induction ks arbitrary: ps) (simp_all add: subkey_step_rooted)

lemma root_for_default:
  assumes inv: "tree_inv c s" and rf: "root_for s None host = (p, s1)"
  shows "rooted p host (hosts32 s) (p, s1) \<and>
         (hosts64 s host = Some p \<or> hosts64 s host = None \<and> p = fresh s)"
proof -
  from root_for_inv [OF inv rf] have i1: "tree_inv c s1" and p1: "p < fresh s1" by simp_all
  have h: "hosts32 s1 = hosts32 s \<and> hosts64 s1 host = Some p \<and>
      (hosts64 s host = Some p \<or> hosts64 s host = None \<and> p = fresh s)"
    using rf by (cases "hosts64 s host") (auto simp: root_for_cases)
  from i1 have wf1: "wf_state s1" by (rule tree_inv_wf)
  from h wf_hosts64D [OF wf1, of host p] have "parent (heap s1 p) = None" by simp
  then have "root_of (heap s1) p p" by (simp add: root_of_def)
  with wf1 p1 h show ?thesis by (simp add: rooted_def)
qed

lemma getRawKey_default_view:
  assumes inv: "tree_inv c s" and g: "getRawKey s key None = Inr (n, s')"
  shows "\<exists>p path. hosts32 s' = hosts32 s \<and> hosts64 s' (fst (split_host key)) = Some p \<and>
           (hosts64 s (fst (split_host key)) = Some p \<or>
            hosts64 s (fst (split_host key)) = None \<and> p = fresh s) \<and>
           getRootAndPath s' n = Some (p, path) \<and> getView s' n None = Some (js ''64'')"
proof -
  obtain host key1 where sh: "split_host key = (host, key1)" by (cases "split_host key")
  from g sh obtain p s1 k where rf: "root_for s None host = (p, s1)" and sk: "subkey s1 p k = (n, s')"
    by (auto simp: getRawKey_def Let_def split: prod.splits if_splits)
  from root_for_default [OF inv rf] have r0: "rooted p host (hosts32 s) (p, s1)"
    and cr: "hosts64 s host = Some p \<or> hosts64 s host = None \<and> p = fresh s" by simp_all
  from foldl_subkey_step_rooted [OF r0, of "split [92] k"] sk
  have r: "rooted p host (hosts32 s) (n, s')" by (simp add: subkey_def)
  then have wf: "wf_state s'" and ro: "root_of (heap s') n p" and h32: "hosts32 s' = hosts32 s"
    and h64: "hosts64 s' host = Some p"
    by (simp_all add: rooted_def)
  from getRootAndPath_root_of [OF ro] obtain path where gp: "getRootAndPath s' n = Some (p, path)"
    by blast
  from wf_hosts64D [OF wf h64] have "hosts32 s' (name (heap s' p)) \<noteq> Some p" by simp
  then have "view_of_root s' p = js ''64''" by (simp add: view_of_root_def)
  with gp have "getView s' n None = Some (js ''64'')" by (simp add: getView_def)
  with h32 h64 cr gp sh show ?thesis by simp
qed

text \<open>
  C10: in every state the operations reach, \<open>getRawKey\<close> without a view leaves the 32-bit
  partition as it is and resolves the key under the root that the 64-bit partition holds
  for the host, which is the root that was there or else a new object entered there;
  \<open>getView\<close> of the resolved key is \<open>64\<close>.  The wholesale invalidation of
  \<open>importreg\<close> without a view empties the 64-bit partition and changes nothing else.
\<close>

theorem default_view_is_64:
  assumes "reachable s"
  shows "(\<forall>key n s'. getRawKey s key None = Inr (n, s') \<longrightarrow>
           (\<exists>p path. hosts32 s' = hosts32 s \<and> hosts64 s' (fst (split_host key)) = Some p \<and>
              (hosts64 s (fst (split_host key)) = Some p \<or>
               hosts64 s (fst (split_host key)) = None \<and> p = fresh s) \<and>
              getRootAndPath s' n = Some (p, path) \<and> getView s' n None = Some (js ''64''))) \<and>
         (\<forall>out. importreg_settled s None None (Close out) =
            Some (Resolves True, s\<lparr>hosts64 := (\<lambda>_. None)\<rparr>))"
proof (intro conjI allI impI)
  fix key n s'
  assume "getRawKey s key None = Inr (n, s')"
  from getRawKey_default_view [OF reached_tree_inv [OF assms] this]
  show "\<exists>p path. hosts32 s' = hosts32 s \<and> hosts64 s' (fst (split_host key)) = Some p \<and>
           (hosts64 s (fst (split_host key)) = Some p \<or>
            hosts64 s (fst (split_host key)) = None \<and> p = fresh s) \<and>
           getRootAndPath s' n = Some (p, path) \<and> getView s' n None = Some (js ''64'')" .
next
  fix out
  show "importreg_settled s None None (Close out) = Some (Resolves True, s\<lparr>hosts64 := (\<lambda>_. None)\<rparr>)"
    by (simp add: importreg_settled_def)
qed

theorem default_view_is_64_witness:
  "reachable init_state \<and> getRawKey init_state (js ''HKLM'') None = Inr (1, snd hklm) \<and>
   hosts32 (snd hklm) = hosts32 init_state \<and> hosts64 (snd hklm) [] = Some 0 \<and>
   getView (snd hklm) 1 None = Some (js ''64'') \<and>
   importreg_settled init_state None None (Close []) =
     Some (Resolves True, init_state\<lparr>hosts64 := (\<lambda>_. None)\<rparr>)"
proof -
  from default_view_is_64 [OF r_init] hklm_facts(1)
  have "hosts32 (snd hklm) = hosts32 init_state" "getView (snd hklm) 1 None = Some (js ''64'')"
    "importreg_settled init_state None None (Close []) =
       Some (Resolves True, init_state\<lparr>hosts64 := (\<lambda>_. None)\<rparr>)"
    by blast+
  with r_init hklm_facts(1,8) show ?thesis by simp
qed

subsection \<open>Import with a list of keys\<close>

lemma detach_all_Nil [simp]: "detach_all s [] = s"
  by (simp add: detach_all_def detached_def)

lemma detach_all_fields [simp]:
  "fresh (detach_all s ds) = fresh s" "hosts32 (detach_all s ds) = hosts32 s"
  "hosts64 (detach_all s ds) = hosts64 s" "promises (detach_all s ds) = promises s"
  "npromises (detach_all s ds) = npromises s" "spawned (detach_all s ds) = spawned s"
  "name (heap (detach_all s ds) r) = name (heap s r)"
  "parent (heap (detach_all s ds) r) = parent (heap s r)"
  "found (heap (detach_all s ds) r) = found (heap s r)"
  "items (heap (detach_all s ds) r) = items (heap s r)"
  "keys (heap (detach_all s ds) r) k = (if detached s ds r k then None else keys (heap s r) k)"
  by (simp_all add: detach_all_def)

lemma detached_snoc:
  "detached s (ds @ [d]) r k \<longleftrightarrow> detached s ds r k \<or> parent (heap s d) = Some r \<and> name (heap s d) = k"
  by (auto simp: detached_def list_ex_iff)

lemma detach_all_snoc:
  assumes "parent (heap s d) = Some q"
  shows "set_keys (detach_all s ds) q (name (heap s d)) None = detach_all s (ds @ [d])"
proof -
  have "(heap (detach_all s ds))(q := (heap (detach_all s ds) q)
          \<lparr>keys := (keys (heap (detach_all s ds) q))(name (heap s d) := None)\<rparr>) =
        (\<lambda>r. (heap s r)\<lparr>keys := (\<lambda>k. if detached s (ds @ [d]) r k then None else keys (heap s r) k)\<rparr>)"
    using assms by (auto simp: fun_eq_iff detach_all_def detached_snoc)
  then show ?thesis by (simp add: set_keys_def detach_all_def)
qed

lemma foldl_detach_step:
  "list_all (\<lambda>d. parent (heap s d) \<noteq> None) ds \<Longrightarrow>
   foldl detach_step (detach_all s done, Inr ps) ds =
     (detach_all s (done @ ds), Inr (foldl set_add ps (List.map_filter (\<lambda>d. parent (heap s d)) ds)))"
proof (induction ds arbitrary: "done" ps)
  case Nil
  then show ?case by (simp add: List.map_filter_simps)
next
  case (Cons d ds)
  from Cons.prems obtain q where q: "parent (heap s d) = Some q" and rest: "list_all (\<lambda>d. parent (heap s d) \<noteq> None) ds"
    by auto
  have step: "detach_step (detach_all s done, Inr ps) d = (detach_all s (done @ [d]), Inr (set_add ps q))"
    using q by (simp add: detach_step_def detach_all_snoc)
  show ?case
    using Cons.IH [OF rest, of "done @ [d]" "set_add ps q"] q
    by (simp add: step List.map_filter_simps)
qed

lemma foldl_set_add:
  "distinct ps \<Longrightarrow> distinct (foldl set_add ps qs) \<and> set (foldl set_add ps qs) = set ps \<union> set qs"
  by (induction qs arbitrary: ps) (auto simp: set_add_def)

lemma set_map_filter_Some: "set (List.map_filter f xs) = {y. \<exists>x\<in>set xs. f x = Some y}"
  by (induction xs) (auto split: option.splits)

lemma parents_of_props:
  "distinct (parents_of s ds)"
  "set (parents_of s ds) = {q. \<exists>d\<in>set ds. parent (heap s d) = Some q}"
  using foldl_set_add [of "[]" "List.map_filter (\<lambda>d. parent (heap s d)) ds"]
  by (auto simp: parents_of_def set_map_filter_Some)

lemma walk_up_cong:
  "ancestor h r n \<Longrightarrow> parent (h r) = None \<Longrightarrow>
   (\<forall>x. name (h' x) = name (h x) \<and> parent (h' x) = parent (h x)) \<Longrightarrow>
   walk_up h' n key = walk_up h n key"
proof (induction arbitrary: key rule: ancestor.induct)
  case (a_parent h n a)
  have "walk_up h' n key = walk_up h' a (name (h' n) @ [92] @ key)"
    using a_parent by (subst walk_up.simps) simp
  also have "\<dots> = Some (a, name (h' n) @ [92] @ key)"
    using a_parent by (subst walk_up.simps) simp
  also have "\<dots> = walk_up h a (name (h n) @ [92] @ key)"
    using a_parent by (subst walk_up.simps) simp
  also have "\<dots> = walk_up h n key"
    using a_parent by (subst (2) walk_up.simps) simp
  finally show ?case .
next
  case (a_step h n q a)
  have "walk_up h' n key = walk_up h' q (name (h n) @ [92] @ key)"
    using a_step.hyps(1) a_step.prems by (subst walk_up.simps) simp
  also have "\<dots> = walk_up h q (name (h n) @ [92] @ key)"
    by (rule a_step.IH [OF a_step.prems])
  also have "\<dots> = walk_up h n key"
    using a_step.hyps(1) by (subst (2) walk_up.simps) simp
  finally show ?case .
qed

lemma getRootAndPath_cong:
  assumes ro: "root_of (heap s) n r"
    and eq: "\<forall>x. name (heap s' x) = name (heap s x) \<and> parent (heap s' x) = parent (heap s x)"
  shows "getRootAndPath s' n = getRootAndPath s n"
proof (cases "parent (heap s n)")
  case None
  with eq show ?thesis by (simp add: getRootAndPath_def)
next
  case (Some p)
  from root_of_parent [OF ro Some] have rp: "root_of (heap s) p r" .
  have "walk_up (heap s') p key = walk_up (heap s) p key" for key
  proof (cases "r = p")
    case True
    with rp eq show ?thesis
      unfolding root_of_def by (subst walk_up.simps, simp, subst walk_up.simps, simp)
  next
    case False
    with rp have "ancestor (heap s) r p" "parent (heap s r) = None" by (auto simp: root_of_def)
    from walk_up_cong [OF this eq] show ?thesis .
  qed
  with Some eq show ?thesis by (auto simp: getRootAndPath_def split: option.splits)
qed

lemma query_command_cong:
  assumes "root_of (heap s) n r"
    and "\<forall>x. name (heap s' x) = name (heap s x) \<and> parent (heap s' x) = parent (heap s x)"
    and "hosts32 s' = hosts32 s"
  shows "query_command s' n = query_command s n"
proof -
  from assms(2,3) have "view_of_root s' x = view_of_root s x" for x
    by (simp add: view_of_root_def)
  with getRootAndPath_cong [OF assms(1,2)] show ?thesis
    by (auto simp: query_command_def split: option.splits)
qed

lemma reread_explicit:
  assumes "root_of (heap s) q r"
  shows "reread s q = Some (npromises s, reread_state s q)"
proof -
  from getRootAndPath_root_of [OF assms] obtain path where g: "getRootAndPath s q = Some (r, path)"
    by blast
  then have "runCommand s q (js ''QUERY'') [] = Some (s\<lparr>spawned := spawned s @ [query_command s q]\<rparr>)"
    by (simp add: runCommand_def query_command_def)
  then show ?thesis
    by (simp add: reread_def new_promise_def set_items_def reread_state_def)
qed

lemma same_tree_reread_state: "same_tree s (reread_state s q)"
  by (simp add: same_tree_def reread_state_def)

lemma reread_state_fields [simp]:
  "fresh (reread_state s q) = fresh s" "hosts32 (reread_state s q) = hosts32 s"
  "hosts64 (reread_state s q) = hosts64 s"
  "npromises (reread_state s q) = Suc (npromises s)"
  "spawned (reread_state s q) = spawned s @ [query_command s q]"
  "promises (reread_state s q) = (promises s)(npromises s := Pending [])"
  "name (heap (reread_state s q) r) = name (heap s r)"
  "parent (heap (reread_state s q) r) = parent (heap s r)"
  "keys (heap (reread_state s q) r) = keys (heap s r)"
  "found (heap (reread_state s q) r) = found (heap s r)"
  "items (heap (reread_state s q) r) = (if r = q then Some (npromises s) else items (heap s r))"
  by (simp_all add: reread_state_def)

lemma reread_all_explicit:
  "wf_state s \<Longrightarrow> list_all (\<lambda>q. q < fresh s) ps \<Longrightarrow> reread_all s ps = Some (foldl reread_state s ps)"
proof (induction ps arbitrary: s)
  case Nil
  then show ?case by simp
next
  case (Cons q ps)
  from Cons.prems have q: "q < fresh s" and rest: "list_all (\<lambda>q. q < fresh s) ps" by simp_all
  from root_of_exists [OF Cons.prems(1) q] obtain r where "root_of (heap s) q r" ..
  from reread_explicit [OF this] have r: "reread s q = Some (npromises s, reread_state s q)" .
  have wf1: "wf_state (reread_state s q)"
    by (rule same_tree_wf [OF same_tree_reread_state Cons.prems(1)])
  from Cons.IH [OF wf1] rest have "reread_all (reread_state s q) ps = Some (foldl reread_state (reread_state s q) ps)"
    by simp
  with r show ?case by simp
qed

lemma foldl_reread_state_tree:
  "fresh (foldl reread_state s ps) = fresh s \<and>
   hosts32 (foldl reread_state s ps) = hosts32 s \<and> hosts64 (foldl reread_state s ps) = hosts64 s \<and>
   npromises (foldl reread_state s ps) = npromises s + length ps \<and>
   (\<forall>r. name (heap (foldl reread_state s ps) r) = name (heap s r) \<and>
        parent (heap (foldl reread_state s ps) r) = parent (heap s r) \<and>
        keys (heap (foldl reread_state s ps) r) = keys (heap s r) \<and>
        found (heap (foldl reread_state s ps) r) = found (heap s r))"
  by (induction ps arbitrary: s) simp_all

lemma foldl_reread_state_promises:
  "promises (foldl reread_state s ps) p =
     (if npromises s \<le> p \<and> p < npromises s + length ps then Pending [] else promises s p)"
  by (induction ps arbitrary: s) auto

lemma foldl_reread_state_items_other:
  "r \<notin> set ps \<Longrightarrow> items (heap (foldl reread_state s ps) r) = items (heap s r)"
  by (induction ps arbitrary: s) simp_all

lemma foldl_reread_state_items:
  "distinct ps \<Longrightarrow> i < length ps \<Longrightarrow>
   items (heap (foldl reread_state s ps) (ps ! i)) = Some (npromises s + i)"
proof (induction ps arbitrary: s i)
  case Nil
  then show ?case by simp
next
  case (Cons q ps)
  show ?case
  proof (cases i)
    case 0
    with Cons.prems show ?thesis by (simp add: foldl_reread_state_items_other)
  next
    case (Suc j)
    with Cons.prems Cons.IH [of j "reread_state s q"] show ?thesis by simp
  qed
qed

lemma foldl_reread_state_spawned:
  "wf_state s \<Longrightarrow> list_all (\<lambda>q. q < fresh s) ps \<Longrightarrow>
   spawned (foldl reread_state s ps) = spawned s @ map (query_command s) ps"
proof (induction ps arbitrary: s)
  case Nil
  then show ?case by simp
next
  case (Cons q ps)
  from Cons.prems have rest: "list_all (\<lambda>q. q < fresh s) ps" by simp
  have wf1: "wf_state (reread_state s q)"
    by (rule same_tree_wf [OF same_tree_reread_state Cons.prems(1)])
  have "query_command (reread_state s q) x = query_command s x" if "x \<in> set ps" for x
  proof -
    from that rest have "x < fresh s" by (simp add: list_all_iff)
    from root_of_exists [OF Cons.prems(1) this] obtain r where "root_of (heap s) x r" ..
    then show ?thesis by (rule query_command_cong) simp_all
  qed
  then have "map (query_command (reread_state s q)) ps = map (query_command s) ps" by simp
  with Cons.IH [OF wf1] rest show ?case by simp
qed

lemma detached_attached:
  assumes wf: "wf_state s" and att: "list_all (attached s) ds" and r: "r < fresh s"
  shows "(if detached s ds r k then None else keys (heap s r) k) = Some c \<longleftrightarrow>
         keys (heap s r) k = Some c \<and> c \<notin> set ds"
proof (cases "detached s ds r k")
  case True
  then obtain d where d: "d \<in> set ds" "parent (heap s d) = Some r" "name (heap s d) = k"
    by (auto simp: detached_def list_ex_iff)
  from att d(1) have "attached s d" by (simp add: list_all_iff)
  with d have "keys (heap s r) k = Some d" by (simp add: attached_def)
  with True d(1) show ?thesis by auto
next
  case False
  have "c \<notin> set ds" if k: "keys (heap s r) k = Some c"
  proof
    assume "c \<in> set ds"
    with wf_keysD [OF wf r k] have "detached s ds r k" by (auto simp: detached_def list_ex_iff)
    with False show False by simp
  qed
  with False show ?thesis by auto
qed

text \<open>
  C9, as the code has it: the entries are deleted by name.  In every state the
  operations reach: when the import fails, the callback leaves the state as it is and
  the result is \<open>false\<close>.  When it succeeds and every key of the list has a parent, the
  result is \<open>true\<close>; in every child mapping exactly the entries under the parent and
  the name of a listed key are removed, which are exactly the listed keys when these are
  attached; nothing else of the tree changes; one QUERY command is started for each
  distinct parent, in the order of their first occurrence, and each parent memoizes a
  new promise, which is still pending.
\<close>

theorem importreg_targeted_invalidation:
  assumes "reachable s" and "list_all (\<lambda>d. d < fresh s \<and> parent (heap s d) \<noteq> None) ds"
  shows "importreg_settled s view dirty (Reject err) = Some (Resolves False, s) \<and>
    (\<exists>s'. importreg_settled s view (Some ds) (Close out) = Some (Resolves True, s') \<and>
      (\<forall>r k. keys (heap s' r) k = (if detached s ds r k then None else keys (heap s r) k)) \<and>
      (list_all (attached s) ds \<longrightarrow>
         (\<forall>r k c. r < fresh s \<longrightarrow>
            (keys (heap s' r) k = Some c \<longleftrightarrow> keys (heap s r) k = Some c \<and> c \<notin> set ds))) \<and>
      (\<forall>r. name (heap s' r) = name (heap s r) \<and> parent (heap s' r) = parent (heap s r) \<and>
           found (heap s' r) = found (heap s r)) \<and>
      fresh s' = fresh s \<and> hosts32 s' = hosts32 s \<and> hosts64 s' = hosts64 s \<and>
      distinct (parents_of s ds) \<and>
      set (parents_of s ds) = {q. \<exists>d\<in>set ds. parent (heap s d) = Some q} \<and>
      spawned s' = spawned s @ map (query_command s) (parents_of s ds) \<and>
      npromises s' = npromises s + length (parents_of s ds) \<and>
      (\<forall>i<length (parents_of s ds).
         items (heap s' (parents_of s ds ! i)) = Some (npromises s + i) \<and>
         promises s' (npromises s + i) = Pending []) \<and>
      (\<forall>r. r \<notin> set (parents_of s ds) \<longrightarrow> items (heap s' r) = items (heap s r)) \<and>
      (\<forall>p<npromises s. promises s' p = promises s p))"
proof
  show "importreg_settled s view dirty (Reject err) = Some (Resolves False, s)"
    by (simp add: importreg_settled_def)
next
  from reached_tree_inv [OF assms(1)] have inv: "tree_inv False s" .
  then have wf: "wf_state s" by (simp add: tree_inv_def)
  let ?ps = "parents_of s ds"
  let ?s1 = "detach_all s ds"
  let ?s' = "foldl reread_state ?s1 ?ps"
  have par: "list_all (\<lambda>d. parent (heap s d) \<noteq> None) ds"
    using assms(2) by (simp add: list_all_iff)
  have f: "foldl detach_step (s, Inr []) ds = (?s1, Inr ?ps)"
    using foldl_detach_step [OF par, of "[]" "[]"] by (simp add: parents_of_def)
  have "tree_inv False ?s1" using foldl_detach_inv [of False "(s, Inr [])" ds] inv f by simp
  then have wf1: "wf_state ?s1" by (simp add: tree_inv_def)
  have ps: "list_all (\<lambda>q. q < fresh ?s1) ?ps"
  proof -
    have "q < fresh s" if "q \<in> set ?ps" for q
    proof -
      from that obtain d where d: "d \<in> set ds" "parent (heap s d) = Some q"
        by (auto simp: parents_of_props(2))
      from assms(2) d(1) have "d < fresh s" by (simp add: list_all_iff)
      with wf_parentD [OF wf this d(2)] show ?thesis by simp
    qed
    then show ?thesis by (simp add: list_all_iff)
  qed
  have ra: "reread_all ?s1 ?ps = Some ?s'" by (rule reread_all_explicit [OF wf1 ps])
  have res: "importreg_settled s view (Some ds) (Close out) = Some (Resolves True, ?s')"
    by (simp add: importreg_settled_def f ra)
  note tr = foldl_reread_state_tree [of ?s1 ?ps]
  have k: "\<forall>r k. keys (heap ?s' r) k = (if detached s ds r k then None else keys (heap s r) k)"
    using tr by simp
  have att: "list_all (attached s) ds \<longrightarrow>
         (\<forall>r k c. r < fresh s \<longrightarrow>
            (keys (heap ?s' r) k = Some c \<longleftrightarrow> keys (heap s r) k = Some c \<and> c \<notin> set ds))"
    using k detached_attached [OF wf] by simp
  have sp: "spawned ?s' = spawned s @ map (query_command s) ?ps"
  proof -
    have "query_command ?s1 x = query_command s x" if "x \<in> set ?ps" for x
    proof -
      from that ps have "x < fresh s" by (simp add: list_all_iff)
      from root_of_exists [OF wf this] obtain r where "root_of (heap s) x r" ..
      then show ?thesis by (rule query_command_cong) simp_all
    qed
    then have "map (query_command ?s1) ?ps = map (query_command s) ?ps" by simp
    with foldl_reread_state_spawned [OF wf1 ps] show ?thesis by simp
  qed
  have it: "\<forall>i<length ?ps. items (heap ?s' (?ps ! i)) = Some (npromises s + i) \<and>
         promises ?s' (npromises s + i) = Pending []"
    using foldl_reread_state_items [OF parents_of_props(1), of _ s ds ?s1]
    by (simp add: foldl_reread_state_promises)
  have ot: "\<forall>r. r \<notin> set ?ps \<longrightarrow> items (heap ?s' r) = items (heap s r)"
    by (simp add: foldl_reread_state_items_other)
  have pr: "\<forall>p<npromises s. promises ?s' p = promises s p"
    by (simp add: foldl_reread_state_promises)
  show "\<exists>s'. importreg_settled s view (Some ds) (Close out) = Some (Resolves True, s') \<and>
      (\<forall>r k. keys (heap s' r) k = (if detached s ds r k then None else keys (heap s r) k)) \<and>
      (list_all (attached s) ds \<longrightarrow>
         (\<forall>r k c. r < fresh s \<longrightarrow>
            (keys (heap s' r) k = Some c \<longleftrightarrow> keys (heap s r) k = Some c \<and> c \<notin> set ds))) \<and>
      (\<forall>r. name (heap s' r) = name (heap s r) \<and> parent (heap s' r) = parent (heap s r) \<and>
           found (heap s' r) = found (heap s r)) \<and>
      fresh s' = fresh s \<and> hosts32 s' = hosts32 s \<and> hosts64 s' = hosts64 s \<and>
      distinct (parents_of s ds) \<and>
      set (parents_of s ds) = {q. \<exists>d\<in>set ds. parent (heap s d) = Some q} \<and>
      spawned s' = spawned s @ map (query_command s) (parents_of s ds) \<and>
      npromises s' = npromises s + length (parents_of s ds) \<and>
      (\<forall>i<length (parents_of s ds).
         items (heap s' (parents_of s ds ! i)) = Some (npromises s + i) \<and>
         promises s' (npromises s + i) = Pending []) \<and>
      (\<forall>r. r \<notin> set (parents_of s ds) \<longrightarrow> items (heap s' r) = items (heap s r)) \<and>
      (\<forall>p<npromises s. promises s' p = promises s p)"
    apply (rule exI [of _ ?s'])
    apply (intro conjI)
    apply (rule res)
    apply (rule k)
    apply (rule att)
    using tr apply simp
    using tr apply simp
    using tr apply simp
    using tr apply simp
    apply (rule parents_of_props(1))
    apply (rule parents_of_props(2))
    apply (rule sp)
    using tr apply simp
    apply (rule it)
    apply (rule ot)
    apply (rule pr)
    done
qed

theorem importreg_targeted_invalidation_witness:
  "reachable siblings \<and>
   list_all (\<lambda>d. d < fresh siblings \<and> parent (heap siblings d) \<noteq> None) [2, 1, 3] \<and>
   list_all (attached siblings) [2, 1, 3] \<and> parents_of siblings [2, 1, 3] = [1, 0] \<and>
   keys (heap siblings 1) (js ''C'') = Some 4 \<and>
   (\<exists>s'. importreg_settled siblings None (Some [2, 1, 3]) (Close []) = Some (Resolves True, s') \<and>
      keys (heap s' 1) (js ''A'') = None \<and> keys (heap s' 1) (js ''B'') = None \<and>
      keys (heap s' 0) (js ''HKEY_LOCAL_MACHINE'') = None \<and>
      keys (heap s' 1) (js ''C'') = Some 4 \<and>
      length (spawned s') = length (spawned siblings) + 2 \<and>
      items (heap s' 1) = Some (npromises siblings) \<and>
      items (heap s' 0) = Some (npromises siblings + 1) \<and>
      promises s' (npromises siblings) = Pending [] \<and>
      promises s' (npromises siblings + 1) = Pending []) \<and>
   importreg_settled siblings None (Some [2, 1, 3]) (Reject access_denied) =
     Some (Resolves False, siblings)"
proof -
  note f = siblings_stale_facts(4)
  have l: "list_all (\<lambda>d. d < fresh siblings \<and> parent (heap siblings d) \<noteq> None) [2, 1, 3]"
    using f by simp
  have a: "list_all (attached siblings) [2, 1, 3]"
    using f by (simp add: attached_def)
  have p: "parents_of siblings [2, 1, 3] = [1, 0]"
    using f by (simp add: parents_of_def set_add_def List.map_filter_simps)
  have c: "keys (heap siblings 1) (js ''C'') = Some 4" using f by simp
  from importreg_targeted_invalidation [OF siblings_reachable l,
      of None "Some [2, 1, 3]" access_denied "[]"]
  obtain s' where r: "importreg_settled siblings None (Some [2, 1, 3]) (Reject access_denied) =
      Some (Resolves False, siblings)"
    and s': "importreg_settled siblings None (Some [2, 1, 3]) (Close []) = Some (Resolves True, s')"
    and k: "\<forall>r k. keys (heap s' r) k =
        (if detached siblings [2, 1, 3] r k then None else keys (heap siblings r) k)"
    and ex: "list_all (attached siblings) [2, 1, 3] \<longrightarrow>
         (\<forall>r k c. r < fresh siblings \<longrightarrow>
            (keys (heap s' r) k = Some c \<longleftrightarrow>
             keys (heap siblings r) k = Some c \<and> c \<notin> set [2, 1, 3]))"
    and sp: "spawned s' = spawned siblings @ map (query_command siblings) (parents_of siblings [2, 1, 3])"
    and it: "\<forall>i<length (parents_of siblings [2, 1, 3]).
         items (heap s' (parents_of siblings [2, 1, 3] ! i)) = Some (npromises siblings + i) \<and>
         promises s' (npromises siblings + i) = Pending []"
    by blast
  have d: "detached siblings [2, 1, 3] 1 (js ''A'')" "detached siblings [2, 1, 3] 1 (js ''B'')"
    "detached siblings [2, 1, 3] 0 (js ''HKEY_LOCAL_MACHINE'')"
    using f by (simp_all add: detached_def)
  from k d have gone: "keys (heap s' 1) (js ''A'') = None" "keys (heap s' 1) (js ''B'') = None"
    "keys (heap s' 0) (js ''HKEY_LOCAL_MACHINE'') = None" by simp_all
  from ex a have "1 < fresh siblings \<longrightarrow>
      (keys (heap s' 1) (js ''C'') = Some 4 \<longleftrightarrow>
       keys (heap siblings 1) (js ''C'') = Some 4 \<and> (4::nat) \<notin> set [2, 1, 3])"
    by blast
  then have stays: "keys (heap s' 1) (js ''C'') = Some 4" using f by simp
  from sp p have len: "length (spawned s') = length (spawned siblings) + 2" by simp
  from it p have it': "items (heap s' ([1, 0] ! i)) = Some (npromises siblings + i) \<and>
      promises s' (npromises siblings + i) = Pending []" if "i < 2" for i
    using that by simp
  from it' [of 0] it' [of 1] have its: "items (heap s' 1) = Some (npromises siblings)"
    "items (heap s' 0) = Some (npromises siblings + 1)"
    "promises s' (npromises siblings) = Pending []"
    "promises s' (npromises siblings + 1) = Pending []"
    by simp_all
  from s' gone stays len its
  have "\<exists>s'. importreg_settled siblings None (Some [2, 1, 3]) (Close []) = Some (Resolves True, s') \<and>
      keys (heap s' 1) (js ''A'') = None \<and> keys (heap s' 1) (js ''B'') = None \<and>
      keys (heap s' 0) (js ''HKEY_LOCAL_MACHINE'') = None \<and>
      keys (heap s' 1) (js ''C'') = Some 4 \<and>
      length (spawned s') = length (spawned siblings) + 2 \<and>
      items (heap s' 1) = Some (npromises siblings) \<and>
      items (heap s' 0) = Some (npromises siblings + 1) \<and>
      promises s' (npromises siblings) = Pending [] \<and>
      promises s' (npromises siblings + 1) = Pending []"
    by blast
  with siblings_reachable l a p c r show ?thesis by blast
qed

text \<open>
  C9 as stated fails for a listed key that is not attached.  In \<open>stale\<close> object 2 is
  the key \<open>A\<close> that was destroyed, and its parent holds the new object 5 under the name
  \<open>A\<close>.  \<open>importreg\<close> with the list of object 2 alone resolves \<open>true\<close> and removes
  the entry of object 5, which is not listed.
\<close>

theorem importreg_of_stale_key_counterexample:
  "reachable stale \<and> 2 < fresh stale \<and> parent (heap stale 2) = Some 1 \<and>
   name (heap stale 2) = js ''A'' \<and> keys (heap stale 1) (js ''A'') = Some 5 \<and>
   importreg_settled stale None (Some [2]) (Close []) = Some (Resolves True, stale_imported) \<and>
   keys (heap stale_imported 1) (js ''A'') = None"
proof -
  note s = siblings_stale_facts(6)
  have "2 < fresh stale" using s by simp
  with stale_reachable s siblings_stale_facts(7,8) show ?thesis by blast
qed

end
